theory Spec2Isabelle
  imports Main
begin

section \<open>Data model\<close>

text \<open>
  The token kinds of \<^verbatim>\<open>enum TokenType\<close>, the \<^verbatim>\<open>struct Token\<close> (a kind and the
  matched text) and the \<^verbatim>\<open>struct ASTNode\<close> (a tag string and an ordered list of
  children) of \<^verbatim>\<open>main.cpp\<close>.
\<close>

datatype TokenType =
    ASSIGN_OP | PLUS_OP | MINUS_OP | SEMICOLON | LBRACE | RBRACE | LPAREN | RPAREN
  | EQ_OP | UNKNOWN | INT_KEYWORD | IF_KEYWORD | IDENTIFIER | NUMBER

datatype Token = Token (tok_type: TokenType) (tok_value: string)

datatype ASTNode = ASTNode (node_value: string) (children: "ASTNode list")

text \<open>
  The ways a run can leave the normal path. \<open>Runtime_error msg\<close> is the C++ exception
  \<^verbatim>\<open>throw runtime_error(msg)\<close>, which \<^verbatim>\<open>main\<close> catches. \<open>Out_of_range\<close> is an
  \<^verbatim>\<open>operator[]\<close> read past the end of a \<^verbatim>\<open>vector\<close> (or past the terminator of a
  \<^verbatim>\<open>string\<close>): the C++ standard gives such a read no meaning and nothing catches it.
  \<open>Signed_overflow\<close> is the increment of an \<^verbatim>\<open>int\<close> that holds \<^verbatim>\<open>INT_MAX\<close>.
\<close>

datatype failure = Runtime_error string | Out_of_range | Signed_overflow

section \<open>Lexer\<close>

text \<open>
  Character classes of \<^verbatim>\<open>cctype\<close> in the default "C" locale, on the byte value of
  the character: \<^verbatim>\<open>isspace\<close> holds for the space and for the control characters 9 to 13
  (tab, newline, vertical tab, form feed, carriage return), \<^verbatim>\<open>isalpha\<close> for the 52
  ASCII letters, \<^verbatim>\<open>isdigit\<close> for the ten ASCII digits.
\<close>

definition isspace :: "char \<Rightarrow> bool" where
  "isspace c = (c = CHR '' '' \<or> (9 \<le> (of_char c :: nat) \<and> (of_char c :: nat) \<le> 13))"

definition isalpha :: "char \<Rightarrow> bool" where
  "isalpha c = ((65 \<le> (of_char c :: nat) \<and> (of_char c :: nat) \<le> 90)
              \<or> (97 \<le> (of_char c :: nat) \<and> (of_char c :: nat) \<le> 122))"

definition isdigit :: "char \<Rightarrow> bool" where
  "isdigit c = (48 \<le> (of_char c :: nat) \<and> (of_char c :: nat) \<le> 57)"

text \<open>
  \<open>char_at\<close> is the read \<^verbatim>\<open>source[pos]\<close> of a \<^verbatim>\<open>const std::string\<close>: inside the string
  it is the character, at \<^verbatim>\<open>pos == size()\<close> it is the terminating \<^verbatim>\<open>'\0'\<close>, and
  beyond that the read has no meaning.
\<close>

definition char_at :: "string \<Rightarrow> nat \<Rightarrow> failure + char" where
  "char_at source pos =
     (if pos < length source then Inr (source ! pos)
      else if pos = length source then Inr (CHR 0x00)
      else Inl Out_of_range)"

text \<open>
  The two inner loops \<^verbatim>\<open>while (isalpha(source[pos])) result += source[pos++];\<close> and
  \<^verbatim>\<open>while (isdigit(source[pos])) number += source[pos++];\<close> are one function of the
  character class; it returns the collected text and the cursor where the loop stopped.
\<close>

function scan_run :: "(char \<Rightarrow> bool) \<Rightarrow> string \<Rightarrow> nat \<Rightarrow> string \<Rightarrow> failure + (string \<times> nat)" where
  "scan_run p source pos result =
     (case char_at source pos of
        Inl e \<Rightarrow> Inl e
      | Inr c \<Rightarrow>
          if p c then scan_run p source (pos + 1) (result @ [c])
          else Inr (result, pos))"
  by pat_completeness auto
termination
  by (relation "measure (\<lambda>(p, source, pos, result). Suc (length source) - pos)")
     (auto simp: char_at_def split: if_splits)

declare scan_run.simps [simp del]

lemma scan_run_le:
  "scan_run p source pos result = Inr (r, pos') \<Longrightarrow> pos \<le> pos'"
proof (induction p source pos result rule: scan_run.induct)
  case (1 p source pos result)
  from "1.prems" show ?case
    by (subst (asm) scan_run.simps) (auto split: sum.splits if_splits dest!: "1.IH")
qed

lemma scan_run_less:
  assumes "scan_run p source pos result = Inr (r, pos')" "pos < length source" "p (source ! pos)"
  shows "pos < pos'"
  using assms
  by (subst (asm) scan_run.simps) (auto simp: char_at_def dest!: scan_run_le)

text \<open>
  The keyword test on a finished run of letters (the \<^verbatim>\<open>if (result == "int") ... else\<close>
  chain inside the letter branch).
\<close>

definition word_token :: "string \<Rightarrow> Token" where
  "word_token result =
     (if result = ''int'' then Token INT_KEYWORD result
      else if result = ''if'' then Token IF_KEYWORD result
      else Token IDENTIFIER result)"

text \<open>
  The \<^verbatim>\<open>for\<close> loop of \<^verbatim>\<open>tokenize\<close>, with the cursor \<open>pos\<close> and the vector
  \<open>tokens\<close> built so far. After a run of letters or digits the code steps the
  cursor back (\<^verbatim>\<open>--pos\<close>) and the loop header advances it again (\<^verbatim>\<open>++pos\<close>).
\<close>

function tokenize_from :: "string \<Rightarrow> nat \<Rightarrow> Token list \<Rightarrow> failure + Token list" where
  "tokenize_from source pos tokens =
     (if pos < length source then
        (let current = source ! pos in
         if isspace current then tokenize_from source (pos + 1) tokens
         else if current = CHR ''='' then
           (case char_at source (pos + 1) of
              Inl e \<Rightarrow> Inl e
            | Inr c \<Rightarrow>
                if c = CHR ''='' then
                  tokenize_from source (pos + 1 + 1) (tokens @ [Token EQ_OP ''==''])
                else tokenize_from source (pos + 1) (tokens @ [Token ASSIGN_OP ''='']))
         else if current = CHR ''+'' then
           tokenize_from source (pos + 1) (tokens @ [Token PLUS_OP ''+''])
         else if current = CHR ''-'' then
           tokenize_from source (pos + 1) (tokens @ [Token MINUS_OP ''-''])
         else if current = CHR '';'' then
           tokenize_from source (pos + 1) (tokens @ [Token SEMICOLON '';''])
         else if current = CHR ''{'' then
           tokenize_from source (pos + 1) (tokens @ [Token LBRACE ''{''])
         else if current = CHR ''}'' then
           tokenize_from source (pos + 1) (tokens @ [Token RBRACE ''}''])
         else if current = CHR ''('' then
           tokenize_from source (pos + 1) (tokens @ [Token LPAREN ''(''])
         else if current = CHR '')'' then
           tokenize_from source (pos + 1) (tokens @ [Token RPAREN '')''])
         else if isalpha current then
           (case scan_run isalpha source pos [] of
              Inl e \<Rightarrow> Inl e
            | Inr (result, pos1) \<Rightarrow>
                tokenize_from source (pos1 - 1 + 1) (tokens @ [word_token result]))
         else if isdigit current then
           (case scan_run isdigit source pos [] of
              Inl e \<Rightarrow> Inl e
            | Inr (number, pos1) \<Rightarrow>
                tokenize_from source (pos1 - 1 + 1) (tokens @ [Token NUMBER number]))
         else tokenize_from source (pos + 1) (tokens @ [Token UNKNOWN [current]]))
      else Inr tokens)"
  by pat_completeness auto
termination
  apply (relation "measure (\<lambda>(source, pos, tokens). length source - pos)")
  apply (auto dest: scan_run_less)
  done

declare tokenize_from.simps [simp del]

definition tokenize :: "string \<Rightarrow> failure + Token list" where
  "tokenize source = tokenize_from source 0 []"


section \<open>Parser: the routines without recursion\<close>

text \<open>
  The parser reads the global \<^verbatim>\<open>tokens\<close> through the global cursor \<^verbatim>\<open>pos\<close>. In the
  model every routine takes the token list and the cursor and returns the node together
  with the advanced cursor, or the failure. \<open>token_at\<close> is the read \<^verbatim>\<open>tokens[pos]\<close>.
\<close>

definition token_at :: "Token list \<Rightarrow> nat \<Rightarrow> failure + Token" where
  "token_at tokens pos =
     (if pos < length tokens then Inr (tokens ! pos) else Inl Out_of_range)"

definition consume :: "Token list \<Rightarrow> nat \<Rightarrow> TokenType \<Rightarrow> failure + (Token \<times> nat)" where
  "consume tokens pos ty =
     (case token_at tokens pos of
        Inl e \<Rightarrow> Inl e
      | Inr t \<Rightarrow>
          if tok_type t = ty then Inr (t, pos + 1)
          else Inl (Runtime_error ''Unexpected token''))"

definition parseIdentifier :: "Token list \<Rightarrow> nat \<Rightarrow> failure + (ASTNode \<times> nat)" where
  "parseIdentifier tokens pos =
     (case consume tokens pos IDENTIFIER of
        Inl e \<Rightarrow> Inl e
      | Inr (identifier, pos1) \<Rightarrow>
          Inr (ASTNode ''Identifier'' [ASTNode (tok_value identifier) []], pos1))"

definition parseDeclaration :: "Token list \<Rightarrow> nat \<Rightarrow> failure + (ASTNode \<times> nat)" where
  "parseDeclaration tokens pos =
     (case consume tokens pos INT_KEYWORD of
        Inl e \<Rightarrow> Inl e
      | Inr (_, pos1) \<Rightarrow>
          (case consume tokens pos1 IDENTIFIER of
             Inl e \<Rightarrow> Inl e
           | Inr (identifier, pos2) \<Rightarrow>
               (case consume tokens pos2 SEMICOLON of
                  Inl e \<Rightarrow> Inl e
                | Inr (_, pos3) \<Rightarrow>
                    Inr (ASTNode ''Declaration''
                           [ASTNode ''Identifier'' [ASTNode (tok_value identifier) []]],
                         pos3))))"

definition parseTerm :: "Token list \<Rightarrow> nat \<Rightarrow> failure + (ASTNode \<times> nat)" where
  "parseTerm tokens pos =
     (case token_at tokens pos of
        Inl e \<Rightarrow> Inl e
      | Inr t \<Rightarrow>
          if tok_type t = NUMBER then
            (case consume tokens pos NUMBER of
               Inl e \<Rightarrow> Inl e
             | Inr (number, pos1) \<Rightarrow>
                 Inr (ASTNode ''Number'' [ASTNode (tok_value number) []], pos1))
          else if tok_type t = IDENTIFIER then parseIdentifier tokens pos
          else Inl (Runtime_error ''Expected term''))"

definition parseExpression :: "Token list \<Rightarrow> nat \<Rightarrow> failure + (ASTNode \<times> nat)" where
  "parseExpression tokens pos =
     (case parseTerm tokens pos of
        Inl e \<Rightarrow> Inl e
      | Inr (left, pos1) \<Rightarrow>
          (case token_at tokens pos1 of
             Inl e \<Rightarrow> Inl e
           | Inr t \<Rightarrow>
               if tok_type t = PLUS_OP \<or> tok_type t = MINUS_OP then
                 (case consume tokens pos1 (tok_type t) of
                    Inl e \<Rightarrow> Inl e
                  | Inr (op, pos2) \<Rightarrow>
                      (case parseTerm tokens pos2 of
                         Inl e \<Rightarrow> Inl e
                       | Inr (right, pos3) \<Rightarrow>
                           Inr (ASTNode (tok_value op) [left, right], pos3)))
               else Inr (left, pos1)))"

definition parseAssignment :: "Token list \<Rightarrow> nat \<Rightarrow> failure + (ASTNode \<times> nat)" where
  "parseAssignment tokens pos =
     (case consume tokens pos IDENTIFIER of
        Inl e \<Rightarrow> Inl e
      | Inr (identifier, pos1) \<Rightarrow>
          (case consume tokens pos1 ASSIGN_OP of
             Inl e \<Rightarrow> Inl e
           | Inr (_, pos2) \<Rightarrow>
               (case parseExpression tokens pos2 of
                  Inl e \<Rightarrow> Inl e
                | Inr (expr, pos3) \<Rightarrow>
                    (case consume tokens pos3 SEMICOLON of
                       Inl e \<Rightarrow> Inl e
                     | Inr (_, pos4) \<Rightarrow>
                         Inr (ASTNode ''Assignment''
                                [ASTNode ''Identifier'' [ASTNode (tok_value identifier) []],
                                 expr],
                              pos4)))))"

definition parseCondition :: "Token list \<Rightarrow> nat \<Rightarrow> failure + (ASTNode \<times> nat)" where
  "parseCondition tokens pos =
     (case parseTerm tokens pos of
        Inl e \<Rightarrow> Inl e
      | Inr (left, pos1) \<Rightarrow>
          (case consume tokens pos1 EQ_OP of
             Inl e \<Rightarrow> Inl e
           | Inr (_, pos2) \<Rightarrow>
               (case parseTerm tokens pos2 of
                  Inl e \<Rightarrow> Inl e
                | Inr (right, pos3) \<Rightarrow> Inr (ASTNode ''=='' [left, right], pos3))))"

section \<open>Parser: statements, if-statements and the program\<close>

text \<open>
  \<open>parseStatement\<close> and \<open>parseIfStatement\<close> call each other; \<open>parseIfBody\<close> is the
  loop \<^verbatim>\<open>while (tokens[pos].type != RBRACE) body.push_back(parseStatement());\<close> of
  \<open>parseIfStatement\<close>, with the vector \<open>body\<close> built so far.
\<close>

function parseStatement :: "Token list \<Rightarrow> nat \<Rightarrow> failure + (ASTNode \<times> nat)"
  and parseIfStatement :: "Token list \<Rightarrow> nat \<Rightarrow> failure + (ASTNode \<times> nat)"
  and parseIfBody :: "Token list \<Rightarrow> nat \<Rightarrow> ASTNode list \<Rightarrow> failure + (ASTNode list \<times> nat)"
where
  "parseStatement tokens pos =
     (case token_at tokens pos of
        Inl e \<Rightarrow> Inl e
      | Inr t \<Rightarrow>
          if tok_type t = INT_KEYWORD then parseDeclaration tokens pos
          else if tok_type t = IF_KEYWORD then parseIfStatement tokens pos
          else parseAssignment tokens pos)"
| "parseIfStatement tokens pos =
     (case consume tokens pos IF_KEYWORD of
        Inl e \<Rightarrow> Inl e
      | Inr (_, pos1) \<Rightarrow>
     (case consume tokens pos1 LPAREN of
        Inl e \<Rightarrow> Inl e
      | Inr (_, pos2) \<Rightarrow>
     (case parseCondition tokens pos2 of
        Inl e \<Rightarrow> Inl e
      | Inr (condition, pos3) \<Rightarrow>
     (case consume tokens pos3 RPAREN of
        Inl e \<Rightarrow> Inl e
      | Inr (_, pos4) \<Rightarrow>
     (case consume tokens pos4 LBRACE of
        Inl e \<Rightarrow> Inl e
      | Inr (_, pos5) \<Rightarrow>
     (case parseIfBody tokens pos5 [] of
        Inl e \<Rightarrow> Inl e
      | Inr (body, pos6) \<Rightarrow>
     (case consume tokens pos6 RBRACE of
        Inl e \<Rightarrow> Inl e
      | Inr (_, pos7) \<Rightarrow>
          Inr (ASTNode ''If'' [condition, ASTNode ''Body'' body], pos7))))))))"
| "parseIfBody tokens pos body =
     (case token_at tokens pos of
        Inl e \<Rightarrow> Inl e
      | Inr t \<Rightarrow>
          if tok_type t \<noteq> RBRACE then
            (case parseStatement tokens pos of
               Inl e \<Rightarrow> Inl e
             | Inr (stmt, pos1) \<Rightarrow> parseIfBody tokens pos1 (body @ [stmt]))
          else Inr (body, pos))"
  by pat_completeness auto

text \<open>
  Every routine that returns a node has advanced the cursor, and it has read inside the
  token sequence; this is what makes the recursion end.
\<close>

lemma consume_Inr:
  "consume tokens pos ty = Inr (t, pos') \<Longrightarrow>
     pos < length tokens \<and> pos' = pos + 1 \<and> t = tokens ! pos \<and> tok_type t = ty"
  by (auto simp: consume_def token_at_def split: if_splits)

lemma token_at_Inr: "token_at tokens pos = Inr t \<Longrightarrow> pos < length tokens \<and> t = tokens ! pos"
  by (auto simp: token_at_def split: if_splits)

lemma parseTerm_Inr: "parseTerm tokens pos = Inr (n, pos') \<Longrightarrow> pos < length tokens \<and> pos' = pos + 1"
  by (auto simp: parseTerm_def parseIdentifier_def split: sum.splits if_splits dest!: consume_Inr token_at_Inr)

lemma parseCondition_Inr: "parseCondition tokens pos = Inr (n, pos') \<Longrightarrow> pos < length tokens \<and> pos' = pos + 3"
  by (auto simp: parseCondition_def split: sum.splits dest!: consume_Inr parseTerm_Inr)

lemma parseDeclaration_Inr: "parseDeclaration tokens pos = Inr (n, pos') \<Longrightarrow> pos < length tokens \<and> pos' = pos + 3"
  by (auto simp: parseDeclaration_def split: sum.splits dest!: consume_Inr)

lemma parseExpression_Inr: "parseExpression tokens pos = Inr (n, pos') \<Longrightarrow> pos < length tokens \<and> pos < pos'"
  by (auto simp: parseExpression_def split: sum.splits if_splits dest!: consume_Inr parseTerm_Inr)

lemma parseAssignment_Inr: "parseAssignment tokens pos = Inr (n, pos') \<Longrightarrow> pos < length tokens \<and> pos < pos'"
  by (auto simp: parseAssignment_def split: sum.splits dest!: consume_Inr parseExpression_Inr)


lemma parse_advances_partial:
  "parseStatement_parseIfStatement_parseIfBody_dom (Inl (tokens, pos)) \<Longrightarrow>
      \<forall>n pos'. parseStatement tokens pos = Inr (n, pos') \<longrightarrow> pos < pos'"
  "parseStatement_parseIfStatement_parseIfBody_dom (Inr (Inl (tokens1, posa))) \<Longrightarrow>
      \<forall>n pos'. parseIfStatement tokens1 posa = Inr (n, pos') \<longrightarrow> posa < pos'"
  "parseStatement_parseIfStatement_parseIfBody_dom (Inr (Inr (tokens2, posb, body))) \<Longrightarrow>
      \<forall>b pos'. parseIfBody tokens2 posb body = Inr (b, pos') \<longrightarrow> posb \<le> pos'"
proof (induct rule: parseStatement_parseIfStatement_parseIfBody.pinduct)
  case (1 tokens pos)
  then show ?case
    by (auto simp: parseStatement.psimps split: sum.splits if_splits
             dest!: parseDeclaration_Inr parseAssignment_Inr)
next
  case (2 tokens pos)
  then show ?case
  proof (intro allI impI)
    fix n pos'
    assume r: "parseIfStatement tokens pos = Inr (n, pos')"
    from r 2(1) obtain t1 pos1 t2 pos2 c pos3 t4 pos4 t5 pos5 b pos6 t7 where
      c1: "consume tokens pos IF_KEYWORD = Inr (t1, pos1)" and
      c2: "consume tokens pos1 LPAREN = Inr (t2, pos2)" and
      c3: "parseCondition tokens pos2 = Inr (c, pos3)" and
      c4: "consume tokens pos3 RPAREN = Inr (t4, pos4)" and
      c5: "consume tokens pos4 LBRACE = Inr (t5, pos5)" and
      c6: "parseIfBody tokens pos5 [] = Inr (b, pos6)" and
      c7: "consume tokens pos6 RBRACE = Inr (t7, pos')"
      by (auto simp: parseIfStatement.psimps split: sum.splits)
    from 2(2) [OF c1 refl c2 refl c3 refl c4 refl c5 refl] c6 have "pos5 \<le> pos6"
      by blast
    with c1 c7 c2 c3 c4 c5 show "pos < pos'"
      by (auto dest!: consume_Inr parseCondition_Inr)
  qed
next
  case (3 tokens pos body)
  then show ?case
    by (fastforce simp: parseIfBody.psimps split: sum.splits if_splits)
qed

termination parseStatement
proof (relation "measure (\<lambda>x. case x of
          Inl (tokens, pos) \<Rightarrow> 3 * (length tokens - pos) + 1
        | Inr (Inl (tokens, pos)) \<Rightarrow> 3 * (length tokens - pos)
        | Inr (Inr (tokens, pos, body)) \<Rightarrow> 3 * (length tokens - pos) + 2)", goal_cases)
  case 1
  show ?case by simp
next
  case (2 tokens pos t)
  then show ?case by simp
next
  case (3 tokens pos)
  then show ?case
    by (auto dest!: consume_Inr parseCondition_Inr)
next
  case (4 tokens pos body t)
  then show ?case by simp
next
  case (5 tokens pos body t r stmt pos1)
  then show ?case
    using parse_advances_partial(1) [of tokens pos]
    by (auto dest!: token_at_Inr)
qed

declare parseStatement.simps [simp del] parseIfStatement.simps [simp del]
  parseIfBody.simps [simp del]

lemma parse_advances:
  "\<forall>n pos'. parseStatement tokens pos = Inr (n, pos') \<longrightarrow> pos < pos'"
  "\<forall>n pos'. parseIfStatement tokens1 posa = Inr (n, pos') \<longrightarrow> posa < pos'"
  "\<forall>b pos'. parseIfBody tokens2 posb body = Inr (b, pos') \<longrightarrow> posb \<le> pos'"
proof (induct rule: parseStatement_parseIfStatement_parseIfBody.induct)
  case (1 tokens pos)
  then show ?case
    by (subst parseStatement.simps)
       (auto split: sum.splits if_splits dest!: parseDeclaration_Inr parseAssignment_Inr)
next
  case (2 tokens pos)
  show ?case
  proof (intro allI impI)
    fix n pos'
    assume r: "parseIfStatement tokens pos = Inr (n, pos')"
    from r obtain t1 pos1 t2 pos2 c pos3 t4 pos4 t5 pos5 b pos6 t7 where
      c1: "consume tokens pos IF_KEYWORD = Inr (t1, pos1)" and
      c2: "consume tokens pos1 LPAREN = Inr (t2, pos2)" and
      c3: "parseCondition tokens pos2 = Inr (c, pos3)" and
      c4: "consume tokens pos3 RPAREN = Inr (t4, pos4)" and
      c5: "consume tokens pos4 LBRACE = Inr (t5, pos5)" and
      c6: "parseIfBody tokens pos5 [] = Inr (b, pos6)" and
      c7: "consume tokens pos6 RBRACE = Inr (t7, pos')"
      by (subst (asm) parseIfStatement.simps) (auto split: sum.splits)
    from 2 [OF c1 refl c2 refl c3 refl c4 refl c5 refl] c6 have "pos5 \<le> pos6"
      by blast
    with c1 c7 c2 c3 c4 c5 show "pos < pos'"
      by (auto dest!: consume_Inr parseCondition_Inr)
  qed
next
  case (3 tokens pos body)
  then show ?case
    by (subst parseIfBody.simps) (fastforce split: sum.splits if_splits)
qed

lemma parseStatement_advances:
  "parseStatement tokens pos = Inr (stmt, pos') \<Longrightarrow> pos < pos'"
  using parse_advances(1) by blast

text \<open>
  \<open>parseProgram_loop\<close> is the loop \<^verbatim>\<open>while (pos < tokens.size())\<close> of
  \<^verbatim>\<open>parseProgram\<close>, with the children of the root collected so far. The global cursor
  starts at 0.
\<close>

function parseProgram_loop :: "Token list \<Rightarrow> nat \<Rightarrow> ASTNode list \<Rightarrow> failure + ASTNode" where
  "parseProgram_loop tokens pos stmts =
     (if pos < length tokens then
        (case parseStatement tokens pos of
           Inl e \<Rightarrow> Inl e
         | Inr (stmt, pos1) \<Rightarrow> parseProgram_loop tokens pos1 (stmts @ [stmt]))
      else Inr (ASTNode ''Program'' stmts))"
  by pat_completeness auto
termination
  by (relation "measure (\<lambda>(tokens, pos, stmts). length tokens - pos)")
     (auto dest: parseStatement_advances)

declare parseProgram_loop.simps [simp del]

definition parseProgram :: "Token list \<Rightarrow> failure + ASTNode" where
  "parseProgram tokens = parseProgram_loop tokens 0 []"

section \<open>Printer\<close>

text \<open>
  \<open>printAST\<close> returns the lines it writes: the tag behind two spaces per level, then
  the lines of every child one level deeper.
\<close>

fun printAST :: "ASTNode \<Rightarrow> nat \<Rightarrow> string list" where
  "printAST (ASTNode v cs) level =
     (concat (replicate level ''  '') @ v) # concat (map (\<lambda>c. printAST c (level + 1)) cs)"

section \<open>Code generator\<close>

text \<open>
  The state the generator works on: the symbol table passed by reference, the
  \<^verbatim>\<open>static int labelCounter\<close>, and the lines written to \<^verbatim>\<open>cout\<close> (every output
  statement of \<^verbatim>\<open>generateAssembly\<close> ends in \<^verbatim>\<open>endl\<close>, so the output is a list of
  lines). Instruction lines start with two spaces, label definitions do not.
\<close>

record gen_state =
  symbolTable :: "string \<rightharpoonup> int"
  labelCounter :: int
  cout :: "string list"

definition emit :: "gen_state \<Rightarrow> string \<Rightarrow> gen_state" where
  "emit st line = st\<lparr>cout := cout st @ [line]\<rparr>"

text \<open>\<open>child node i\<close> is the read \<^verbatim>\<open>node.children[i]\<close>.\<close>

definition child :: "ASTNode \<Rightarrow> nat \<Rightarrow> failure + ASTNode" where
  "child node i =
     (if i < length (children node) then Inr (children node ! i) else Inl Out_of_range)"

text \<open>The decimal text that \<^verbatim>\<open>cout << label\<close> writes for an \<^verbatim>\<open>int\<close>.\<close>

fun show_nat :: "nat \<Rightarrow> string" where
  "show_nat n =
     (if n < 10 then [char_of (48 + n)]
      else show_nat (n div 10) @ [char_of (48 + n mod 10)])"

declare show_nat.simps [simp del]

definition show_int :: "int \<Rightarrow> string" where
  "show_int i = (if i < 0 then CHR ''-'' # show_nat (nat (- i)) else show_nat (nat i))"

lemma child_size: "child node i = Inr c \<Longrightarrow> size c < size node"
proof -
  assume a: "child node i = Inr c"
  then have m: "c \<in> set (children node)"
    by (auto simp: child_def split: if_splits)
  have "size c \<le> size_list size (children node)"
    by (rule size_list_estimation' [OF m]) simp
  then show ?thesis by (cases node) simp
qed

text \<open>
  \<open>generateAssembly\<close> dispatches on the tag string in the order of the source;
  \<open>generateAll\<close> is the loop \<^verbatim>\<open>for (const auto &child : ...) generateAssembly(child,
  symbolTable);\<close> over a list of children. In the \<open>If\<close> branch the label is taken and
  the counter incremented first (\<^verbatim>\<open>int label = labelCounter++;\<close>).
\<close>

function generateAssembly :: "ASTNode \<Rightarrow> gen_state \<Rightarrow> failure + gen_state"
  and generateAll :: "ASTNode list \<Rightarrow> gen_state \<Rightarrow> failure + gen_state"
where
  "generateAssembly node st =
     (if node_value node = ''Program'' then generateAll (children node) st
      else if node_value node = ''Declaration'' then
        (case child node 0 of
           Inl e \<Rightarrow> Inl e
         | Inr ident \<Rightarrow>
        (case child ident 0 of
           Inl e \<Rightarrow> Inl e
         | Inr varName \<Rightarrow>
             Inr (st\<lparr>symbolTable := (symbolTable st)(node_value varName \<mapsto> 0)\<rparr>)))
      else if node_value node = ''Assignment'' then
        (case child node 0 of
           Inl e \<Rightarrow> Inl e
         | Inr ident \<Rightarrow>
        (case child ident 0 of
           Inl e \<Rightarrow> Inl e
         | Inr varName \<Rightarrow>
        (case child node 1 of
           Inl e \<Rightarrow> Inl e
         | Inr expr \<Rightarrow>
        (case
           (if node_value expr = ''Number'' then
              (case child expr 0 of
                 Inl e \<Rightarrow> Inl e
               | Inr num \<Rightarrow> Inr (emit st (''  MVI A, '' @ node_value num)))
            else if node_value expr = ''+'' then
              (case child expr 0 of
                 Inl e \<Rightarrow> Inl e
               | Inr left \<Rightarrow>
              (case child expr 1 of
                 Inl e \<Rightarrow> Inl e
               | Inr right \<Rightarrow>
              (case child left 0 of
                 Inl e \<Rightarrow> Inl e
               | Inr l \<Rightarrow>
              (case child right 0 of
                 Inl e \<Rightarrow> Inl e
               | Inr r \<Rightarrow>
                   Inr (emit
                         (emit st
                            (if node_value left = ''Identifier''
                             then ''  MOV A, '' @ node_value l
                             else ''  MVI A, '' @ node_value l))
                         (if node_value right = ''Identifier''
                          then ''  ADD '' @ node_value r
                          else ''  ADI '' @ node_value r))))))
            else Inr st)
         of
           Inl e \<Rightarrow> Inl e
         | Inr st1 \<Rightarrow> Inr (emit st1 (''  STA '' @ node_value varName))))))
      else if node_value node = ''If'' then
        (if labelCounter st = 2147483647 then Inl Signed_overflow
         else
           (case child node 0 of
              Inl e \<Rightarrow> Inl e
            | Inr condition \<Rightarrow>
           (case generateAssembly condition (st\<lparr>labelCounter := labelCounter st + 1\<rparr>) of
              Inl e \<Rightarrow> Inl e
            | Inr st1 \<Rightarrow>
           (case child node 1 of
              Inl e \<Rightarrow> Inl e
            | Inr body \<Rightarrow>
           (case generateAll (children body)
                   (emit st1 (''  JNZ LABEL'' @ show_int (labelCounter st))) of
              Inl e \<Rightarrow> Inl e
            | Inr st2 \<Rightarrow>
                Inr (emit st2 (''LABEL'' @ show_int (labelCounter st) @ '':'')))))))
      else if node_value node = ''=='' then
        (case child node 0 of
           Inl e \<Rightarrow> Inl e
         | Inr left \<Rightarrow>
        (case child left 0 of
           Inl e \<Rightarrow> Inl e
         | Inr leftVar \<Rightarrow>
        (case child node 1 of
           Inl e \<Rightarrow> Inl e
         | Inr right \<Rightarrow>
        (case child right 0 of
           Inl e \<Rightarrow> Inl e
         | Inr rightVal \<Rightarrow>
             Inr (emit (emit st (''  MOV A, '' @ node_value leftVar))
                       (''  CPI '' @ node_value rightVal))))))
      else Inr st)"
| "generateAll [] st = Inr st"
| "generateAll (stmt # stmts) st =
     (case generateAssembly stmt st of
        Inl e \<Rightarrow> Inl e
      | Inr st1 \<Rightarrow> generateAll stmts st1)"
  by pat_completeness auto
termination
proof (relation "measure (\<lambda>x. case x of
          Inl (node, st) \<Rightarrow> 2 * size node
        | Inr (nodes, st) \<Rightarrow> 2 * size_list size nodes + 1)", goal_cases)
  case 1
  show ?case by simp
next
  case (2 node st)
  then show ?case by (cases node) simp
next
  case (3 node st condition)
  then show ?case by (simp add: child_size)
next
  case (4 node st condition st1 body)
  then have "size body < size node"
    by (auto intro: child_size)
  then have "size_list size (children body) < size node"
    by (cases body) simp
  then show ?case by simp
next
  case (5 stmt stmts st)
  show ?case by simp
next
  case (6 stmt stmts st st1)
  show ?case by simp
qed

declare generateAssembly.simps [simp del]

declare generateAll.simps [simp del]

section \<open>The run of the compiler\<close>

text \<open>
  The state \<^verbatim>\<open>main\<close> starts the generator in: an empty \<^verbatim>\<open>unordered_map\<close>, the
  label counter at its static initial value 0, nothing written yet.
\<close>

definition init_state :: gen_state where
  "init_state = \<lparr>symbolTable = Map.empty, labelCounter = 0, cout = []\<rparr>"

text \<open>
  What a run leaves behind: the text on standard output, the text on standard error and
  the value \<^verbatim>\<open>main\<close> returns. \<open>unlines\<close> gives every line its \<^verbatim>\<open>endl\<close>.
\<close>

record run =
  stdout :: string
  stderr :: string
  exit_code :: int

definition unlines :: "string list \<Rightarrow> string" where
  "unlines ls = concat (map (\<lambda>l. l @ [CHR 0x0A]) ls)"

text \<open>
  \<open>main\<close> takes what opening \<^verbatim>\<open>test.txt\<close> gives: \<open>None\<close> when the file does not open,
  otherwise the lines that \<^verbatim>\<open>getline\<close> reads, which are joined without their line
  ends. Only a \<open>Runtime_error\<close> is caught by \<^verbatim>\<open>catch (const exception &e)\<close>.
\<close>

definition main :: "string list option \<Rightarrow> failure + run" where
  "main file =
     (let source = (case file of None \<Rightarrow> [] | Some ls \<Rightarrow> concat ls);
          opened = (case file of None \<Rightarrow> ''Can't open the input file.'' | Some ls \<Rightarrow> [])
      in case tokenize source of
           Inl e \<Rightarrow> Inl e
         | Inr tokens \<Rightarrow>
             (case parseProgram tokens of
                Inl (Runtime_error msg) \<Rightarrow>
                  Inr \<lparr>stdout = opened, stderr = unlines [''Error: '' @ msg], exit_code = 0\<rparr>
              | Inl Out_of_range \<Rightarrow> Inl Out_of_range
              | Inl Signed_overflow \<Rightarrow> Inl Signed_overflow
              | Inr root \<Rightarrow>
                  (case generateAssembly root init_state of
                     Inl e \<Rightarrow> Inl e
                   | Inr st \<Rightarrow>
                       Inr \<lparr>stdout = opened @ unlines (printAST root 0)
                                     @ unlines ['''', ''Assembly Code:''] @ unlines (cout st),
                            stderr = [], exit_code = 0\<rparr>)))"

text \<open>
  \<open>listing source\<close> is the instruction listing of that run: the lines
  \<^verbatim>\<open>generateAssembly\<close> writes for the tree parsed from the tokens of \<open>source\<close>.
\<close>

definition listing :: "string \<Rightarrow> failure + string list" where
  "listing source =
     (case tokenize source of
        Inl e \<Rightarrow> Inl e
      | Inr tokens \<Rightarrow>
          (case parseProgram tokens of
             Inl e \<Rightarrow> Inl e
           | Inr root \<Rightarrow>
               (case generateAssembly root init_state of
                  Inl e \<Rightarrow> Inl e
                | Inr st \<Rightarrow> Inr (cout st))))"

section \<open>Notions used to state the properties\<close>

text \<open>An instruction line starts with the two spaces of the source.\<close>

definition indented :: "string \<Rightarrow> bool" where
  "indented l = (take 2 l = ''  '')"

text \<open>
  \<open>label_definition n\<close> is the line that defines label \<open>n\<close>; \<open>label_lines ls\<close> are the
  lines of a listing that are not instructions, that is its label definitions.
\<close>

definition label_definition :: "int \<Rightarrow> string" where
  "label_definition n = ''LABEL'' @ show_int n @ '':''"

definition label_lines :: "string list \<Rightarrow> string list" where
  "label_lines ls = filter (\<lambda>l. \<not> indented l) ls"

text \<open>
  \<open>declared node\<close> is the set of names in the Declaration nodes that the traversal of
  \<open>generateAssembly\<close> reaches from \<open>node\<close>: through the children of a \<open>Program\<close>
  node, and through the condition and the statements of the body of an \<open>If\<close> node.
  \<open>declare_names D table\<close> is \<open>table\<close> after \<^verbatim>\<open>symbolTable[name] = 0\<close> for every name
  of \<open>D\<close>.
\<close>

function declared :: "ASTNode \<Rightarrow> string set"
  and declared_all :: "ASTNode list \<Rightarrow> string set"
where
  "declared node =
     (if node_value node = ''Program'' then declared_all (children node)
      else if node_value node = ''Declaration'' then
        (case children node of
           [] \<Rightarrow> {}
         | ident # _ \<Rightarrow> (case children ident of [] \<Rightarrow> {} | varName # _ \<Rightarrow> {node_value varName}))
      else if node_value node = ''If'' then
        (case children node of
           condition # body # _ \<Rightarrow> declared condition \<union> declared_all (children body)
         | _ \<Rightarrow> {})
      else {})"
| "declared_all [] = {}"
| "declared_all (stmt # stmts) = declared stmt \<union> declared_all stmts"
  by pat_completeness auto
termination
proof (relation "measure (\<lambda>x. case x of
          Inl node \<Rightarrow> 2 * size node
        | Inr nodes \<Rightarrow> 2 * size_list size nodes + 1)", goal_cases)
  case 1
  show ?case by simp
next
  case (2 node)
  then show ?case by (cases node) simp
next
  case (3 node condition rest body rest')
  then show ?case by (cases node) simp
next
  case (4 node condition rest body rest')
  then show ?case by (cases node; cases body) simp
next
  case (5 stmt stmts)
  show ?case by simp
next
  case (6 stmt stmts)
  show ?case by simp
qed

declare declared.simps [simp del]

definition declare_names :: "string set \<Rightarrow> (string \<rightharpoonup> int) \<Rightarrow> (string \<rightharpoonup> int)" where
  "declare_names D table = (\<lambda>name. if name \<in> D then Some 0 else table name)"

section \<open>The lexer as a function of the remaining input\<close>

text \<open>
  \<open>lex\<close> reads the same branches off the list of characters that remain; the loop of
  \<open>tokenize\<close> at cursor \<open>pos\<close> appends \<open>lex (drop pos source)\<close> to its vector
  (\<open>tokenize_from_lex\<close>). It is used in the proofs only.
\<close>

function lex :: "string \<Rightarrow> Token list" where
  "lex [] = []"
| "lex (c # cs) =
     (if isspace c then lex cs
      else if c = CHR ''='' then
        (case cs of
           [] \<Rightarrow> Token ASSIGN_OP ''='' # lex cs
         | d # ds \<Rightarrow>
             if d = CHR ''='' then Token EQ_OP ''=='' # lex ds
             else Token ASSIGN_OP ''='' # lex cs)
      else if c = CHR ''+'' then Token PLUS_OP ''+'' # lex cs
      else if c = CHR ''-'' then Token MINUS_OP ''-'' # lex cs
      else if c = CHR '';'' then Token SEMICOLON '';'' # lex cs
      else if c = CHR ''{'' then Token LBRACE ''{'' # lex cs
      else if c = CHR ''}'' then Token RBRACE ''}'' # lex cs
      else if c = CHR ''('' then Token LPAREN ''('' # lex cs
      else if c = CHR '')'' then Token RPAREN '')'' # lex cs
      else if isalpha c then
        word_token (c # takeWhile isalpha cs) # lex (dropWhile isalpha cs)
      else if isdigit c then
        Token NUMBER (c # takeWhile isdigit cs) # lex (dropWhile isdigit cs)
      else Token UNKNOWN [c] # lex cs)"
  by pat_completeness auto
termination
  by (relation "measure length") (auto simp: length_dropWhile_le le_imp_less_Suc)

declare lex.simps(2) [simp del]

lemma not_isalpha_NUL: "\<not> isalpha (CHR 0x00)"
  by (simp add: isalpha_def)

lemma not_isdigit_NUL: "\<not> isdigit (CHR 0x00)"
  by (simp add: isdigit_def)

lemma scan_run_takeWhile:
  "pos \<le> length source \<Longrightarrow> \<not> p (CHR 0x00) \<Longrightarrow>
   scan_run p source pos result =
     Inr (result @ takeWhile p (drop pos source),
          pos + length (takeWhile p (drop pos source)))"
proof (induction p source pos result rule: scan_run.induct)
  case (1 p source pos result)
  show ?case
  proof (cases "pos < length source")
    case True
    then have d: "drop pos source = source ! pos # drop (Suc pos) source"
      by (simp add: Cons_nth_drop_Suc)
    from True have c: "char_at source pos = Inr (source ! pos)"
      by (simp add: char_at_def)
    show ?thesis
    proof (cases "p (source ! pos)")
      case True
      with "1.IH" [OF c True] \<open>pos < length source\<close> "1.prems"(2) c d show ?thesis
        by (subst scan_run.simps) simp
    next
      case False
      with c d show ?thesis
        by (subst scan_run.simps) simp
    qed
  next
    case False
    with "1.prems" have "pos = length source" by simp
    with "1.prems"(2) show ?thesis
      by (subst scan_run.simps) (simp add: char_at_def)
  qed
qed

lemma tokenize_from_lex:
  "pos \<le> length source \<Longrightarrow>
   tokenize_from source pos tokens = Inr (tokens @ lex (drop pos source))"
proof (induction source pos tokens rule: tokenize_from.induct)
  case (1 source pos tokens)
  show ?case
  proof (cases "pos < length source")
    case False
    with "1.prems" show ?thesis
      by (subst tokenize_from.simps) simp
  next
    case True
    then have d: "drop pos source = source ! pos # drop (Suc pos) source"
      by (simp add: Cons_nth_drop_Suc)
    note IH = "1.IH" [OF True refl]
    have ca: "char_at source (Suc pos) = Inr (case drop (Suc pos) source of [] \<Rightarrow> CHR 0x00 | x # _ \<Rightarrow> x)"
      using True by (auto simp: char_at_def Cons_nth_drop_Suc [symmetric] split: list.splits)
    have dd: "drop (Suc (Suc pos)) source = tl (drop (Suc pos) source)"
      by (simp add: drop_Suc tl_drop)
    show ?thesis
    proof (cases "isspace (source ! pos)")
      case True
      with IH(1) \<open>pos < length source\<close> d show ?thesis
        by (subst tokenize_from.simps) (simp add: lex.simps(2) Let_def)
    next
      case nsp: False
      show ?thesis
      proof (cases "source ! pos = CHR ''=''")
        case True
        show ?thesis
        proof (cases "drop (Suc pos) source")
          case Nil
          then have "char_at source (pos + 1) = Inr (CHR 0x00)"
            using \<open>pos < length source\<close> by (simp add: char_at_def)
          with IH(3) [OF nsp True] True nsp \<open>pos < length source\<close> d Nil show ?thesis
            by (subst tokenize_from.simps) (simp add: lex.simps(2) Let_def)
        next
          case (Cons x xs)
          then have lt: "Suc pos < length source"
            by (cases "Suc pos < length source") auto
          with Cons have x: "x = source ! Suc pos" and xs: "xs = drop (Suc (Suc pos)) source"
            by (simp_all add: Cons_nth_drop_Suc [symmetric])
          from lt x have ca: "char_at source (pos + 1) = Inr x"
            by (simp add: char_at_def)
          show ?thesis
          proof (cases "x = CHR ''=''")
            case True
            with IH(2) [OF nsp \<open>source ! pos = CHR ''=''\<close> ca True] lt nsp
                 \<open>source ! pos = CHR ''=''\<close> d Cons ca xs show ?thesis
              by (subst tokenize_from.simps) (simp add: lex.simps(2) Let_def)
          next
            case False
            with IH(3) [OF nsp \<open>source ! pos = CHR ''=''\<close> ca False] lt nsp
                 \<open>source ! pos = CHR ''=''\<close> d Cons ca xs show ?thesis
              by (subst tokenize_from.simps) (simp add: lex.simps(2) Let_def)
          qed
        qed
      next
        case neq: False
        show ?thesis
        proof (cases "source ! pos \<in> set ''+-;{}()''")
          case True
          with IH(4-10) nsp neq \<open>pos < length source\<close> d show ?thesis
            by (subst tokenize_from.simps) (auto simp add: lex.simps(2) Let_def)
        next
          case npunct: False
          show ?thesis
          proof (cases "isalpha (source ! pos)")
            case True
            have sr: "scan_run isalpha source pos [] =
                        Inr (source ! pos # takeWhile isalpha (drop (Suc pos) source),
                             Suc (pos + length (takeWhile isalpha (drop (Suc pos) source))))"
              using scan_run_takeWhile [of pos source isalpha "[]"] d True "1.prems"
              by (simp add: not_isalpha_NUL)
            have le: "Suc (pos + length (takeWhile isalpha (drop (Suc pos) source))) \<le> length source"
              using length_takeWhile_le [of isalpha "drop (Suc pos) source"] \<open>pos < length source\<close>
              by simp
            have dr: "drop (Suc (pos + length (takeWhile isalpha (drop (Suc pos) source)))) source
                        = dropWhile isalpha (drop (Suc pos) source)"
              by (metis add_Suc_right add_Suc drop_drop dropWhile_eq_drop add.commute)
            from npunct have np: "source ! pos \<noteq> CHR ''+''" "source ! pos \<noteq> CHR ''-''"
              "source ! pos \<noteq> CHR '';''" "source ! pos \<noteq> CHR ''{''" "source ! pos \<noteq> CHR ''}''"
              "source ! pos \<noteq> CHR ''(''" "source ! pos \<noteq> CHR '')''"
              by auto
            from IH(11) [OF nsp neq np True sr refl] le dr
            have "tokenize_from source (Suc (pos + length (takeWhile isalpha (drop (Suc pos) source))))
                    (tokens @ [word_token (source ! pos # takeWhile isalpha (drop (Suc pos) source))])
                  = Inr ((tokens @ [word_token (source ! pos # takeWhile isalpha (drop (Suc pos) source))])
                          @ lex (dropWhile isalpha (drop (Suc pos) source)))"
              by simp
            with nsp neq np True sr \<open>pos < length source\<close> d show ?thesis
              by (subst tokenize_from.simps) (simp add: lex.simps(2) Let_def)
          next
            case nalpha: False
            show ?thesis
            proof (cases "isdigit (source ! pos)")
              case True
              have sr: "scan_run isdigit source pos [] =
                          Inr (source ! pos # takeWhile isdigit (drop (Suc pos) source),
                               Suc (pos + length (takeWhile isdigit (drop (Suc pos) source))))"
                using scan_run_takeWhile [of pos source isdigit "[]"] d True "1.prems"
                by (simp add: not_isdigit_NUL)
              have le: "Suc (pos + length (takeWhile isdigit (drop (Suc pos) source))) \<le> length source"
                using length_takeWhile_le [of isdigit "drop (Suc pos) source"] \<open>pos < length source\<close>
                by simp
              have dr: "drop (Suc (pos + length (takeWhile isdigit (drop (Suc pos) source)))) source
                          = dropWhile isdigit (drop (Suc pos) source)"
                by (metis add_Suc_right add_Suc drop_drop dropWhile_eq_drop add.commute)
              from npunct have np: "source ! pos \<noteq> CHR ''+''" "source ! pos \<noteq> CHR ''-''"
                "source ! pos \<noteq> CHR '';''" "source ! pos \<noteq> CHR ''{''" "source ! pos \<noteq> CHR ''}''"
                "source ! pos \<noteq> CHR ''(''" "source ! pos \<noteq> CHR '')''"
                by auto
              from IH(12) [OF nsp neq np nalpha True sr refl] le dr
              have "tokenize_from source (Suc (pos + length (takeWhile isdigit (drop (Suc pos) source))))
                      (tokens @ [Token NUMBER (source ! pos # takeWhile isdigit (drop (Suc pos) source))])
                    = Inr ((tokens @ [Token NUMBER (source ! pos # takeWhile isdigit (drop (Suc pos) source))])
                            @ lex (dropWhile isdigit (drop (Suc pos) source)))"
                by simp
              with nsp neq np nalpha True sr \<open>pos < length source\<close> d show ?thesis
                by (subst tokenize_from.simps) (simp add: lex.simps(2) Let_def)
            next
              case False
              from npunct have np: "source ! pos \<noteq> CHR ''+''" "source ! pos \<noteq> CHR ''-''"
                "source ! pos \<noteq> CHR '';''" "source ! pos \<noteq> CHR ''{''" "source ! pos \<noteq> CHR ''}''"
                "source ! pos \<noteq> CHR ''(''" "source ! pos \<noteq> CHR '')''"
                by auto
              with IH(13) [OF nsp neq np nalpha False] nsp neq nalpha False
                   \<open>pos < length source\<close> d show ?thesis
                by (subst tokenize_from.simps) (simp add: lex.simps(2) Let_def)
            qed
          qed
        qed
      qed
    qed
  qed
qed

lemma tokenize_lex: "tokenize source = Inr (lex source)"
  by (simp add: tokenize_def tokenize_from_lex)

lemma tok_value_word_token: "tok_value (word_token r) = r"
  by (simp add: word_token_def)

lemma isalpha_not_isspace: "isalpha c \<Longrightarrow> \<not> isspace c"
  by (auto simp: isalpha_def isspace_def)

lemma isdigit_not_isspace: "isdigit c \<Longrightarrow> \<not> isspace c"
  by (auto simp: isdigit_def isspace_def)

lemma filter_run:
  assumes "\<And>x. p x \<Longrightarrow> q x"
  shows "takeWhile p cs @ filter q (dropWhile p cs) = filter q cs"
proof -
  have "filter q cs = filter q (takeWhile p cs @ dropWhile p cs)" by simp
  also have "\<dots> = filter q (takeWhile p cs) @ filter q (dropWhile p cs)" by (rule filter_append)
  also have "filter q (takeWhile p cs) = takeWhile p cs"
    by (rule filter_True) (auto dest: set_takeWhileD intro: assms)
  finally show ?thesis by simp
qed

lemma lex_concat: "concat (map tok_value (lex s)) = filter (\<lambda>c. \<not> isspace c) s"
proof (induction s rule: lex.induct)
  case 1
  show ?case by simp
next
  case (2 c cs)
  show ?case
  proof (cases "isspace c")
    case True
    with 2(1) [OF True] show ?thesis by (subst lex.simps(2)) simp
  next
    case nsp: False
    show ?thesis
    proof (cases "c = CHR ''=''")
      case True
      show ?thesis
      proof (cases cs)
        case Nil
        with nsp True show ?thesis by (subst lex.simps(2)) simp
      next
        case (Cons d ds)
        show ?thesis
        proof (cases "d = CHR ''=''")
          case deq: True
          with 2(3) [OF nsp True Cons deq] nsp True Cons show ?thesis
            by (subst lex.simps(2)) simp
        next
          case False
          with 2(4) [OF nsp True Cons False] nsp True Cons show ?thesis
            by (subst lex.simps(2)) simp
        qed
      qed
    next
      case neq: False
      show ?thesis
      proof (cases "c \<in> set ''+-;{}()''")
        case True
        then consider "c = CHR ''+''" | "c = CHR ''-''" | "c = CHR '';''" | "c = CHR ''{''"
          | "c = CHR ''}''" | "c = CHR ''(''" | "c = CHR '')''"
          by auto
        then show ?thesis
        proof cases
          case 1
          with "2.IH"(5) nsp neq show ?thesis by (subst lex.simps(2)) simp
        next
          case 2
          with "2.IH"(6) nsp neq show ?thesis by (subst lex.simps(2)) simp
        next
          case 3
          with "2.IH"(7) nsp neq show ?thesis by (subst lex.simps(2)) simp
        next
          case 4
          with "2.IH"(8) nsp neq show ?thesis by (subst lex.simps(2)) simp
        next
          case 5
          with "2.IH"(9) nsp neq show ?thesis by (subst lex.simps(2)) simp
        next
          case 6
          with "2.IH"(10) nsp neq show ?thesis by (subst lex.simps(2)) simp
        next
          case 7
          with "2.IH"(11) nsp neq show ?thesis by (subst lex.simps(2)) simp
        qed
      next
        case False
        then have np: "c \<noteq> CHR ''+''" "c \<noteq> CHR ''-''" "c \<noteq> CHR '';''" "c \<noteq> CHR ''{''"
          "c \<noteq> CHR ''}''" "c \<noteq> CHR ''(''" "c \<noteq> CHR '')''"
          by auto
        show ?thesis
        proof (cases "isalpha c")
          case True
          with "2.IH"(12) [OF nsp neq np True] nsp neq np
               filter_run [of isalpha "\<lambda>c. \<not> isspace c" cs, OF isalpha_not_isspace]
          show ?thesis
            by (subst lex.simps(2)) (simp add: tok_value_word_token)
        next
          case nalpha: False
          show ?thesis
          proof (cases "isdigit c")
            case True
            with "2.IH"(13) [OF nsp neq np nalpha True] nsp neq np nalpha
                 filter_run [of isdigit "\<lambda>c. \<not> isspace c" cs, OF isdigit_not_isspace]
            show ?thesis
              by (subst lex.simps(2)) simp
          next
            case False
            with "2.IH"(14) [OF nsp neq np nalpha False] nsp neq np nalpha show ?thesis
              by (subst lex.simps(2)) simp
          qed
        qed
      qed
    qed
  qed
qed

lemma lex_separator:
  assumes c: "\<not> isalpha c" "\<not> isdigit c" "c \<noteq> CHR ''=''"
  shows "lex (a @ c # b) = lex a @ lex (c # b)"
proof (induction a rule: lex.induct)
  case 1
  show ?case by simp
next
  case (2 x xs)
  have tw: "\<And>p. \<not> p c \<Longrightarrow> takeWhile p (xs @ c # b) = takeWhile p xs"
    by (induction xs) auto
  have dw: "\<And>p. \<not> p c \<Longrightarrow> dropWhile p (xs @ c # b) = dropWhile p xs @ c # b"
    by (induction xs) auto
  have app: "(x # xs) @ c # b = x # (xs @ c # b)" by simp
  show ?case
  proof (cases "isspace x")
    case True
    with "2.IH"(1) [OF True] show ?thesis
      unfolding app by (subst (1 2) lex.simps(2)) simp
  next
    case nsp: False
    show ?thesis
    proof (cases "x = CHR ''=''")
      case True
      show ?thesis
      proof (cases xs)
        case Nil
        with nsp True c(3) show ?thesis
          unfolding app by (subst (1 2) lex.simps(2)) simp
      next
        case (Cons d ds)
        show ?thesis
        proof (cases "d = CHR ''=''")
          case deq: True
          with "2.IH"(3) [OF nsp True Cons deq] nsp True Cons show ?thesis
            unfolding app by (subst (1 2) lex.simps(2)) simp
        next
          case False
          with "2.IH"(4) [OF nsp True Cons False] nsp True Cons show ?thesis
            unfolding app by (subst (1 2) lex.simps(2)) simp
        qed
      qed
    next
      case neq: False
      show ?thesis
      proof (cases "x \<in> set ''+-;{}()''")
        case True
        then consider "x = CHR ''+''" | "x = CHR ''-''" | "x = CHR '';''" | "x = CHR ''{''"
          | "x = CHR ''}''" | "x = CHR ''(''" | "x = CHR '')''"
          by auto
        then show ?thesis
        proof cases
          case 1
          with "2.IH"(5) nsp neq show ?thesis
            unfolding app by (subst (1 2) lex.simps(2)) simp
        next
          case 2
          with "2.IH"(6) nsp neq show ?thesis
            unfolding app by (subst (1 2) lex.simps(2)) simp
        next
          case 3
          with "2.IH"(7) nsp neq show ?thesis
            unfolding app by (subst (1 2) lex.simps(2)) simp
        next
          case 4
          with "2.IH"(8) nsp neq show ?thesis
            unfolding app by (subst (1 2) lex.simps(2)) simp
        next
          case 5
          with "2.IH"(9) nsp neq show ?thesis
            unfolding app by (subst (1 2) lex.simps(2)) simp
        next
          case 6
          with "2.IH"(10) nsp neq show ?thesis
            unfolding app by (subst (1 2) lex.simps(2)) simp
        next
          case 7
          with "2.IH"(11) nsp neq show ?thesis
            unfolding app by (subst (1 2) lex.simps(2)) simp
        qed
      next
        case False
        then have np: "x \<noteq> CHR ''+''" "x \<noteq> CHR ''-''" "x \<noteq> CHR '';''" "x \<noteq> CHR ''{''"
          "x \<noteq> CHR ''}''" "x \<noteq> CHR ''(''" "x \<noteq> CHR '')''"
          by auto
        show ?thesis
        proof (cases "isalpha x")
          case True
          with "2.IH"(12) [OF nsp neq np True] nsp neq np tw [of isalpha, OF c(1)] dw [of isalpha, OF c(1)]
          show ?thesis
            unfolding app by (subst (1 2) lex.simps(2)) simp
        next
          case nalpha: False
          show ?thesis
          proof (cases "isdigit x")
            case True
            with "2.IH"(13) [OF nsp neq np nalpha True] nsp neq np nalpha tw [of isdigit, OF c(2)] dw [of isdigit, OF c(2)]
            show ?thesis
              unfolding app by (subst (1 2) lex.simps(2)) simp
          next
            case False
            with "2.IH"(14) [OF nsp neq np nalpha False] nsp neq np nalpha show ?thesis
              unfolding app by (subst (1 2) lex.simps(2)) simp
          qed
        qed
      qed
    qed
  qed
qed

lemma lex_whitespace: "isspace c \<Longrightarrow> lex (c # b) = lex b"
  by (subst lex.simps(2)) simp

lemma lex_unknown:
  "\<not> isspace c \<Longrightarrow> c \<notin> set ''=+-;{}()'' \<Longrightarrow> \<not> isalpha c \<Longrightarrow> \<not> isdigit c \<Longrightarrow>
   lex (c # b) = Token UNKNOWN [c] # lex b"
  by (subst lex.simps(2)) simp

lemma isspace_separator: "isspace c \<Longrightarrow> \<not> isalpha c \<and> \<not> isdigit c \<and> c \<noteq> CHR ''=''"
  by (auto simp: isalpha_def isdigit_def isspace_def)


text \<open>
  What the parser relies on in the tokens of the lexer: an operator token carries its
  own symbol.
\<close>

definition lexed :: "Token \<Rightarrow> bool" where
  "lexed t = ((tok_type t = PLUS_OP \<longrightarrow> tok_value t = ''+'')
            \<and> (tok_type t = MINUS_OP \<longrightarrow> tok_value t = ''-''))"

lemma lexed_word_token: "lexed (word_token r)"
  by (simp add: lexed_def word_token_def)

lemma lex_tokens:
  assumes "P (Token EQ_OP ''=='')" "P (Token ASSIGN_OP ''='')" "P (Token PLUS_OP ''+'')"
    "P (Token MINUS_OP ''-'')" "P (Token SEMICOLON '';'')" "P (Token LBRACE ''{'')"
    "P (Token RBRACE ''}'')" "P (Token LPAREN ''('')" "P (Token RPAREN '')'')"
    "\<And>r. P (word_token r)" "\<And>n. P (Token NUMBER n)" "\<And>c. P (Token UNKNOWN [c])"
  shows "\<forall>t \<in> set (lex s). P t"
proof (induction s rule: lex.induct)
  case 1
  show ?case by simp
next
  case (2 c cs)
  note IH = "2.IH"
  show ?case
  proof (cases "isspace c")
    case True
    with IH(1) [OF True] show ?thesis by (subst lex.simps(2)) simp
  next
    case nsp: False
    show ?thesis
    proof (cases "c = CHR ''=''")
      case True
      show ?thesis
      proof (cases cs)
        case Nil
        with nsp True assms(2) show ?thesis by (subst lex.simps(2)) simp
      next
        case (Cons d ds)
        show ?thesis
        proof (cases "d = CHR ''=''")
          case deq: True
          with IH(3) [OF nsp True Cons deq] nsp True Cons assms(1) show ?thesis
            by (subst lex.simps(2)) simp
        next
          case False
          with IH(4) [OF nsp True Cons False] nsp True Cons assms(2) show ?thesis
            by (subst lex.simps(2)) simp
        qed
      qed
    next
      case neq: False
      show ?thesis
      proof (cases "c \<in> set ''+-;{}()''")
        case True
        then consider "c = CHR ''+''" | "c = CHR ''-''" | "c = CHR '';''" | "c = CHR ''{''"
          | "c = CHR ''}''" | "c = CHR ''(''" | "c = CHR '')''"
          by auto
        then show ?thesis
        proof cases
          case 1
          with IH(5) nsp neq assms(3) show ?thesis by (subst lex.simps(2)) simp
        next
          case 2
          with IH(6) nsp neq assms(4) show ?thesis by (subst lex.simps(2)) simp
        next
          case 3
          with IH(7) nsp neq assms(5) show ?thesis by (subst lex.simps(2)) simp
        next
          case 4
          with IH(8) nsp neq assms(6) show ?thesis by (subst lex.simps(2)) simp
        next
          case 5
          with IH(9) nsp neq assms(7) show ?thesis by (subst lex.simps(2)) simp
        next
          case 6
          with IH(10) nsp neq assms(8) show ?thesis by (subst lex.simps(2)) simp
        next
          case 7
          with IH(11) nsp neq assms(9) show ?thesis by (subst lex.simps(2)) simp
        qed
      next
        case False
        then have np: "c \<noteq> CHR ''+''" "c \<noteq> CHR ''-''" "c \<noteq> CHR '';''" "c \<noteq> CHR ''{''"
          "c \<noteq> CHR ''}''" "c \<noteq> CHR ''(''" "c \<noteq> CHR '')''"
          by auto
        show ?thesis
        proof (cases "isalpha c")
          case True
          with IH(12) [OF nsp neq np True] nsp neq np assms(10) show ?thesis
            by (subst lex.simps(2)) simp
        next
          case nalpha: False
          show ?thesis
          proof (cases "isdigit c")
            case True
            with IH(13) [OF nsp neq np nalpha True] nsp neq np nalpha assms(11) show ?thesis
              by (subst lex.simps(2)) simp
          next
            case False
            with IH(14) [OF nsp neq np nalpha False] nsp neq np nalpha assms(12) show ?thesis
              by (subst lex.simps(2)) simp
          qed
        qed
      qed
    qed
  qed
qed

lemma lex_lexed: "\<forall>t \<in> set (lex s). lexed t"
  by (rule lex_tokens) (simp_all add: lexed_def word_token_def)

lemma tokenize_lexed: "tokenize source = Inr tokens \<Longrightarrow> t \<in> set tokens \<Longrightarrow> lexed t"
  using lex_lexed by (auto simp: tokenize_lex)
section \<open>What the parser can end in\<close>

text \<open>
  The failures the parsing routines can return: the two exceptions of the source and the
  read past the end of the token sequence.
\<close>

definition parse_failure :: "failure \<Rightarrow> bool" where
  "parse_failure e = (e = Runtime_error ''Unexpected token'' \<or> e = Runtime_error ''Expected term''
               \<or> e = Out_of_range)"

lemma consume_Inl: "consume tokens pos ty = Inl e \<Longrightarrow> parse_failure e"
  by (auto simp: consume_def token_at_def parse_failure_def split: if_splits)

lemma token_at_Inl: "token_at tokens pos = Inl e \<Longrightarrow> parse_failure e"
  by (auto simp: token_at_def parse_failure_def split: if_splits)

lemma parseTerm_Inl: "parseTerm tokens pos = Inl e \<Longrightarrow> parse_failure e"
  by (auto simp: parseTerm_def parseIdentifier_def split: sum.splits if_splits
           dest!: consume_Inl token_at_Inl) (simp_all add: parse_failure_def)

lemma parseDeclaration_Inl: "parseDeclaration tokens pos = Inl e \<Longrightarrow> parse_failure e"
  by (auto simp: parseDeclaration_def split: sum.splits dest!: consume_Inl)

lemma parseExpression_Inl: "parseExpression tokens pos = Inl e \<Longrightarrow> parse_failure e"
  by (auto simp: parseExpression_def split: sum.splits if_splits
           dest!: consume_Inl token_at_Inl parseTerm_Inl)

lemma parseAssignment_Inl: "parseAssignment tokens pos = Inl e \<Longrightarrow> parse_failure e"
  by (auto simp: parseAssignment_def split: sum.splits dest!: consume_Inl parseExpression_Inl)

lemma parseCondition_Inl: "parseCondition tokens pos = Inl e \<Longrightarrow> parse_failure e"
  by (auto simp: parseCondition_def split: sum.splits dest!: consume_Inl parseTerm_Inl)

lemma parse_failures:
  "\<forall>e. parseStatement tokens pos = Inl e \<longrightarrow> parse_failure e"
  "\<forall>e. parseIfStatement tokens1 posa = Inl e \<longrightarrow> parse_failure e"
  "\<forall>e. parseIfBody tokens2 posb body = Inl e \<longrightarrow> parse_failure e"
proof (induct rule: parseStatement_parseIfStatement_parseIfBody.induct)
  case (1 tokens pos)
  then show ?case
    by (subst parseStatement.simps)
       (auto split: sum.splits if_splits dest!: parseDeclaration_Inl parseAssignment_Inl token_at_Inl)
next
  case (2 tokens pos)
  then show ?case
    by (subst parseIfStatement.simps)
       (auto split: sum.splits dest!: consume_Inl parseCondition_Inl)
next
  case (3 tokens pos body)
  then show ?case
    by (subst parseIfBody.simps) (auto split: sum.splits if_splits dest!: token_at_Inl)
qed

lemma parseProgram_loop_failures:
  "parseProgram_loop tokens pos stmts = Inl e \<Longrightarrow> parse_failure e"
proof (induction tokens pos stmts rule: parseProgram_loop.induct)
  case (1 tokens pos stmts)
  from "1.prems" show ?case
    by (subst (asm) parseProgram_loop.simps)
       (auto split: if_splits sum.splits dest: "1.IH" parse_failures(1) [rule_format])
qed

lemma parseProgram_failures: "parseProgram tokens = Inl e \<Longrightarrow> parse_failure e"
  by (auto simp: parseProgram_def dest: parseProgram_loop_failures)



section \<open>The shape of the nodes the parser builds\<close>

lemma parseTerm_shape:
  assumes "parseTerm tokens pos = Inr (n, pos')"
  shows "pos < length tokens \<and> pos' = pos + 1
       \<and> (\<exists>tag. n = ASTNode tag [ASTNode (tok_value (tokens ! pos)) []]
                 \<and> (tag = ''Number'' \<or> tag = ''Identifier''))"
  using assms unfolding parseTerm_def parseIdentifier_def consume_def token_at_def
  by (simp split: sum.splits if_splits prod.splits) auto

lemma parseExpression_cases:
  assumes "parseExpression tokens pos = Inr (e, pos')"
  shows "parseTerm tokens pos = Inr (e, pos')
       \<or> (\<exists>left pos1 right. parseTerm tokens pos = Inr (left, pos1) \<and> pos1 < length tokens
             \<and> (tok_type (tokens ! pos1) = PLUS_OP \<or> tok_type (tokens ! pos1) = MINUS_OP)
             \<and> parseTerm tokens (pos1 + 1) = Inr (right, pos')
             \<and> e = ASTNode (tok_value (tokens ! pos1)) [left, right])"
  using assms unfolding parseExpression_def consume_def token_at_def
  by (simp split: sum.splits if_splits prod.splits)

lemma parseExpression_shape:
  assumes wf: "\<forall>t \<in> set tokens. lexed t" and p: "parseExpression tokens pos = Inr (e, pos')"
  obtains (operand) tag v where "e = ASTNode tag [ASTNode v []]"
      "tag = ''Number'' \<or> tag = ''Identifier''"
  | (binary) op lt l rt r where
      "e = ASTNode op [ASTNode lt [ASTNode l []], ASTNode rt [ASTNode r []]]"
      "op = ''+'' \<or> op = ''-''"
      "lt = ''Number'' \<or> lt = ''Identifier''" "rt = ''Number'' \<or> rt = ''Identifier''"
  using parseExpression_cases [OF p]
proof
  assume "parseTerm tokens pos = Inr (e, pos')"
  from parseTerm_shape [OF this] obtain tag where
    "e = ASTNode tag [ASTNode (tok_value (tokens ! pos)) []]"
    "tag = ''Number'' \<or> tag = ''Identifier''"
    by auto
  then show thesis by (rule operand)
next
  assume "\<exists>left pos1 right. parseTerm tokens pos = Inr (left, pos1) \<and> pos1 < length tokens
             \<and> (tok_type (tokens ! pos1) = PLUS_OP \<or> tok_type (tokens ! pos1) = MINUS_OP)
             \<and> parseTerm tokens (pos1 + 1) = Inr (right, pos')
             \<and> e = ASTNode (tok_value (tokens ! pos1)) [left, right]"
  then obtain left pos1 right where
    l: "parseTerm tokens pos = Inr (left, pos1)" and lt: "pos1 < length tokens" and
    k: "tok_type (tokens ! pos1) = PLUS_OP \<or> tok_type (tokens ! pos1) = MINUS_OP" and
    r: "parseTerm tokens (pos1 + 1) = Inr (right, pos')" and
    e: "e = ASTNode (tok_value (tokens ! pos1)) [left, right]"
    by auto
  from lt wf have "lexed (tokens ! pos1)" by simp
  with k have op: "tok_value (tokens ! pos1) = ''+'' \<or> tok_value (tokens ! pos1) = ''-''"
    by (auto simp: lexed_def)
  from parseTerm_shape [OF l] obtain ltag where
    L: "left = ASTNode ltag [ASTNode (tok_value (tokens ! pos)) []]"
       "ltag = ''Number'' \<or> ltag = ''Identifier''"
    by auto
  from parseTerm_shape [OF r] obtain rtag where
    R: "right = ASTNode rtag [ASTNode (tok_value (tokens ! (pos1 + 1))) []]"
       "rtag = ''Number'' \<or> rtag = ''Identifier''"
    by auto
  from e L(1) R(1) have
    "e = ASTNode (tok_value (tokens ! pos1))
           [ASTNode ltag [ASTNode (tok_value (tokens ! pos)) []],
            ASTNode rtag [ASTNode (tok_value (tokens ! (pos1 + 1))) []]]"
    by simp
  then show thesis using op L(2) R(2) by (rule binary)
qed

lemma parseAssignment_shape:
  assumes "parseAssignment tokens pos = Inr (node, pos')"
  obtains target e p p' where
    "node = ASTNode ''Assignment'' [ASTNode ''Identifier'' [ASTNode target []], e]"
    "parseExpression tokens p = Inr (e, p')"
  using assms unfolding parseAssignment_def
  by (auto split: sum.splits)

lemma parseCondition_shape:
  assumes "parseCondition tokens pos = Inr (cond, pos')"
  shows "\<exists>lt rt. cond = ASTNode ''=='' [ASTNode lt [ASTNode (tok_value (tokens ! pos)) []],
                                        ASTNode rt [ASTNode (tok_value (tokens ! (pos + 2))) []]]
           \<and> (lt = ''Number'' \<or> lt = ''Identifier'') \<and> (rt = ''Number'' \<or> rt = ''Identifier'')"
proof -
  from assms obtain left pos1 t pos2 right where
    l: "parseTerm tokens pos = Inr (left, pos1)" and
    c: "consume tokens pos1 EQ_OP = Inr (t, pos2)" and
    r: "parseTerm tokens pos2 = Inr (right, pos')" and
    n: "cond = ASTNode ''=='' [left, right]"
    unfolding parseCondition_def by (auto split: sum.splits)
  from parseTerm_shape [OF l] obtain lt where
    L: "pos1 = pos + 1" "left = ASTNode lt [ASTNode (tok_value (tokens ! pos)) []]"
       "lt = ''Number'' \<or> lt = ''Identifier''"
    by auto
  from consume_Inr [OF c] L(1) have p2: "pos2 = pos + 2" by simp
  from parseTerm_shape [OF r] p2 obtain rt where
    R: "right = ASTNode rt [ASTNode (tok_value (tokens ! (pos + 2))) []]"
       "rt = ''Number'' \<or> rt = ''Identifier''"
    by auto
  from n L(2,3) R show ?thesis by simp
qed

section \<open>The generator on the nodes of the parser\<close>

lemma gen_assign_number:
  "generateAssembly
     (ASTNode ''Assignment'' [ASTNode ''Identifier'' [ASTNode target []],
                              ASTNode ''Number'' [ASTNode num []]]) st
   = Inr (st\<lparr>cout := cout st @ [''  MVI A, '' @ num, ''  STA '' @ target]\<rparr>)"
  by (simp add: generateAssembly.simps child_def emit_def)

lemma gen_assign_plus:
  "generateAssembly
     (ASTNode ''Assignment'' [ASTNode ''Identifier'' [ASTNode target []],
                              ASTNode ''+'' [ASTNode lt [ASTNode l []], ASTNode rt [ASTNode r []]]]) st
   = Inr (st\<lparr>cout := cout st @
             [(if lt = ''Identifier'' then ''  MOV A, '' else ''  MVI A, '') @ l,
              (if rt = ''Identifier'' then ''  ADD '' else ''  ADI '') @ r,
              ''  STA '' @ target]\<rparr>)"
  by (simp add: generateAssembly.simps child_def emit_def)

lemma gen_assign_other:
  "tag \<noteq> ''Number'' \<Longrightarrow> tag \<noteq> ''+'' \<Longrightarrow>
   generateAssembly
     (ASTNode ''Assignment'' [ASTNode ''Identifier'' [ASTNode target []], ASTNode tag operands]) st
   = Inr (st\<lparr>cout := cout st @ [''  STA '' @ target]\<rparr>)"
  by (simp add: generateAssembly.simps child_def emit_def)

lemma gen_condition:
  "generateAssembly
     (ASTNode ''=='' [ASTNode lt (ASTNode l ls # ls'), ASTNode rt (ASTNode r rs # rs')]) st
   = Inr (st\<lparr>cout := cout st @ [''  MOV A, '' @ l, ''  CPI '' @ r]\<rparr>)"
  by (simp add: generateAssembly.simps child_def emit_def)



section \<open>The symbol table and the leaves of the traversal\<close>

lemma child_0: "child node 0 = Inr c \<longleftrightarrow> (\<exists>cs. children node = c # cs)"
  by (cases "children node") (auto simp: child_def)

lemma child_1: "child node (Suc 0) = Inr c \<longleftrightarrow> (\<exists>a cs. children node = a # c # cs)"
  by (cases "children node"; cases "tl (children node)") (auto simp: child_def)

lemma gen_leaf:
  assumes "node_value node \<noteq> ''Program''" "node_value node \<noteq> ''If''"
    and "generateAssembly node st = Inr st'"
  shows "\<exists>ls. (\<forall>l \<in> set ls. indented l)
           \<and> (\<forall>s. generateAssembly node s =
                  Inr (s\<lparr>symbolTable := declare_names (declared node) (symbolTable s),
                         cout := cout s @ ls\<rparr>))"
proof (cases "node_value node = ''Declaration''")
  case True
  with assms(3) obtain ident varName r1 r2 where
    c: "children node = ident # r1" "children ident = varName # r2"
    by (subst (asm) generateAssembly.simps) (auto simp: child_0 split: sum.splits)
  have t: "\<And>s. (symbolTable s)(node_value varName \<mapsto> 0)
              = declare_names {node_value varName} (symbolTable s)"
    by (auto simp: declare_names_def fun_eq_iff)
  from True c have "\<forall>s. generateAssembly node s =
                  Inr (s\<lparr>symbolTable := declare_names (declared node) (symbolTable s),
                         cout := cout s @ []\<rparr>)"
    by (subst generateAssembly.simps, subst declared.simps) (simp add: child_def t)
  then show ?thesis
    by (intro exI [of _ "[]"]) simp
next
  case nd: False
  have dn: "declared node = {}"
    using assms(1,2) nd by (subst declared.simps) simp
  have id: "\<And>s. declare_names {} (symbolTable s) = symbolTable s"
    by (simp add: declare_names_def)
  have same: "\<And>s ls. s\<lparr>symbolTable := symbolTable s, cout := cout s @ ls\<rparr> = s\<lparr>cout := cout s @ ls\<rparr>"
    by simp
  show ?thesis
  proof (cases "node_value node = ''Assignment''")
    case True
    with assms(3) obtain ident varName expr r1 r2 where
      c: "children node = ident # expr # r1" "children ident = varName # r2"
      by (subst (asm) generateAssembly.simps) (auto simp: child_0 child_1 split: sum.splits)
    from c have ch: "child node 0 = Inr ident" "child node 1 = Inr expr"
      "child ident 0 = Inr varName"
      by (simp_all add: child_def)
    show ?thesis
    proof (cases "node_value expr = ''Number''")
      case num: True
      with True ch assms(3) obtain n r3 where e: "children expr = n # r3"
        by (subst (asm) generateAssembly.simps)
           (auto simp: child_0 split: sum.splits)
      from True c num e have "\<forall>s. generateAssembly node s =
          Inr (s\<lparr>cout := cout s @ [''  MVI A, '' @ node_value n, ''  STA '' @ node_value varName]\<rparr>)"
        by (subst generateAssembly.simps) (simp add: child_def emit_def)
      then show ?thesis
        by (intro exI [of _ "[''  MVI A, '' @ node_value n, ''  STA '' @ node_value varName]"])
           (simp add: dn id indented_def)
    next
      case nnum: False
      show ?thesis
      proof (cases "node_value expr = ''+''")
        case plus: True
        with True ch nnum assms(3) obtain left right r3 where
          e1: "children expr = left # right # r3"
          by (subst (asm) generateAssembly.simps)
             (auto simp: child_0 child_1 split: sum.splits)
        then have ch2: "child expr 0 = Inr left" "child expr 1 = Inr right"
          by (simp_all add: child_def)
        with True ch nnum plus assms(3) obtain l r4 r r5 where
          e2: "children left = l # r4" "children right = r # r5"
          by (subst (asm) generateAssembly.simps)
             (auto simp: child_0 split: sum.splits)
        note e = e1 e2
        from True c nnum plus e have "\<forall>s. generateAssembly node s =
            Inr (s\<lparr>cout := cout s @
                   [if node_value left = ''Identifier'' then ''  MOV A, '' @ node_value l
                    else ''  MVI A, '' @ node_value l,
                    if node_value right = ''Identifier'' then ''  ADD '' @ node_value r
                    else ''  ADI '' @ node_value r,
                    ''  STA '' @ node_value varName]\<rparr>)"
          by (subst generateAssembly.simps) (simp add: child_def emit_def)
        then show ?thesis
          by (intro exI [of _ "[if node_value left = ''Identifier'' then ''  MOV A, '' @ node_value l
                    else ''  MVI A, '' @ node_value l,
                    if node_value right = ''Identifier'' then ''  ADD '' @ node_value r
                    else ''  ADI '' @ node_value r,
                    ''  STA '' @ node_value varName]"])
             (simp add: dn id indented_def)
      next
        case False
        with True c nnum have "\<forall>s. generateAssembly node s =
            Inr (s\<lparr>cout := cout s @ [''  STA '' @ node_value varName]\<rparr>)"
          by (subst generateAssembly.simps) (simp add: child_def emit_def)
        then show ?thesis
          by (intro exI [of _ "[''  STA '' @ node_value varName]"])
             (simp add: dn id indented_def)
      qed
    qed
  next
    case na: False
    show ?thesis
    proof (cases "node_value node = ''==''")
      case True
      with assms(3) obtain left right r1 l r2 r r3 where
        c: "children node = left # right # r1" "children left = l # r2" "children right = r # r3"
        by (subst (asm) generateAssembly.simps)
           (auto simp: child_0 child_1 split: sum.splits)
      from True c have "\<forall>s. generateAssembly node s =
          Inr (s\<lparr>cout := cout s @ [''  MOV A, '' @ node_value l, ''  CPI '' @ node_value r]\<rparr>)"
        by (subst generateAssembly.simps) (simp add: child_def emit_def)
      then show ?thesis
        by (intro exI [of _ "[''  MOV A, '' @ node_value l, ''  CPI '' @ node_value r]"])
           (simp add: dn id indented_def)
    next
      case False
      with assms(1,2) nd na have "\<forall>s. generateAssembly node s = Inr (s\<lparr>cout := cout s @ []\<rparr>)"
        by (subst generateAssembly.simps) simp
      then show ?thesis
        by (intro exI [of _ "[]"]) (simp add: dn id)
    qed
  qed
qed


lemma declare_names_empty: "declare_names {} table = table"
  by (simp add: declare_names_def)

lemma declare_names_Un:
  "declare_names (A \<union> B) table = declare_names B (declare_names A table)"
  by (auto simp: declare_names_def fun_eq_iff)

lemma emit_symbolTable:
  "emit (s\<lparr>symbolTable := m\<rparr>) l = (emit s l)\<lparr>symbolTable := m\<rparr>"
  "symbolTable (emit s l) = symbolTable s" "labelCounter (emit s l) = labelCounter s"
  by (simp_all add: emit_def)

lemma gen_If:
  assumes "node_value node = ''If''"
  shows "generateAssembly node st =
     (if labelCounter st = 2147483647 then Inl Signed_overflow
      else
        (case child node 0 of
           Inl e \<Rightarrow> Inl e
         | Inr condition \<Rightarrow>
        (case generateAssembly condition (st\<lparr>labelCounter := labelCounter st + 1\<rparr>) of
           Inl e \<Rightarrow> Inl e
         | Inr st1 \<Rightarrow>
        (case child node 1 of
           Inl e \<Rightarrow> Inl e
         | Inr body \<Rightarrow>
        (case generateAll (children body)
                (emit st1 (''  JNZ LABEL'' @ show_int (labelCounter st))) of
           Inl e \<Rightarrow> Inl e
         | Inr st2 \<Rightarrow>
             Inr (emit st2 (''LABEL'' @ show_int (labelCounter st) @ '':'')))))))"
  by (subst generateAssembly.simps) (simp add: assms)

lemma gen_If_Inr:
  assumes "node_value node = ''If''" "generateAssembly node st = Inr st'"
  obtains condition body st1 st2 where
    "labelCounter st \<noteq> 2147483647"
    "child node 0 = Inr condition" "child node 1 = Inr body"
    "generateAssembly condition (st\<lparr>labelCounter := labelCounter st + 1\<rparr>) = Inr st1"
    "generateAll (children body) (emit st1 (''  JNZ LABEL'' @ show_int (labelCounter st))) = Inr st2"
    "st' = emit st2 (''LABEL'' @ show_int (labelCounter st) @ '':'')"
  using assms(2) unfolding gen_If [OF assms(1)]
  by (auto split: if_splits sum.splits)

lemma declared_If:
  assumes "node_value node = ''If''" "child node 0 = Inr condition" "child node 1 = Inr body"
  shows "declared node = declared condition \<union> declared_all (children body)"
proof -
  from assms(2,3) obtain r where "children node = condition # body # r"
    by (auto simp: child_0 child_1)
  with assms(1) show ?thesis
    by (subst declared.simps) simp
qed

lemma update_order:
  "s\<lparr>symbolTable := m, labelCounter := c\<rparr> = s\<lparr>labelCounter := c, symbolTable := m\<rparr>"
  by (cases s) simp

lemma gen_table:
  "\<forall>st'. generateAssembly node st = Inr st' \<longrightarrow>
      symbolTable st' = declare_names (declared node) (symbolTable st)
    \<and> (\<forall>m. generateAssembly node (st\<lparr>symbolTable := m\<rparr>) =
            Inr (st'\<lparr>symbolTable := declare_names (declared node) m\<rparr>))"
  "\<forall>st'. generateAll nodes st1 = Inr st' \<longrightarrow>
      symbolTable st' = declare_names (declared_all nodes) (symbolTable st1)
    \<and> (\<forall>m. generateAll nodes (st1\<lparr>symbolTable := m\<rparr>) =
            Inr (st'\<lparr>symbolTable := declare_names (declared_all nodes) m\<rparr>))"
proof (induct rule: generateAssembly_generateAll.induct)
  case (1 node st)
  show ?case
  proof (intro allI impI)
    fix st'
    assume g: "generateAssembly node st = Inr st'"
    show "symbolTable st' = declare_names (declared node) (symbolTable st)
        \<and> (\<forall>m. generateAssembly node (st\<lparr>symbolTable := m\<rparr>) =
            Inr (st'\<lparr>symbolTable := declare_names (declared node) m\<rparr>))"
    proof (cases "node_value node = ''Program''")
      case True
      then have d: "declared node = declared_all (children node)"
        by (subst declared.simps) simp
      from True have u: "\<And>s. generateAssembly node s = generateAll (children node) s"
        by (subst generateAssembly.simps) simp
      from g 1(1) [OF True] show ?thesis
        by (simp add: u d)
    next
      case np: False
      show ?thesis
      proof (cases "node_value node = ''If''")
        case False
        from gen_leaf [OF np False g] obtain ls where
          u: "\<And>s. generateAssembly node s =
                  Inr (s\<lparr>symbolTable := declare_names (declared node) (symbolTable s),
                         cout := cout s @ ls\<rparr>)"
          by blast
        from g show ?thesis
          by (auto simp: u)
      next
        case True
        from gen_If_Inr [OF True g] obtain condition body st1 st2 where
          c: "labelCounter st \<noteq> 2147483647" and
          c0: "child node 0 = Inr condition" and c1: "child node 1 = Inr body" and
          g1: "generateAssembly condition (st\<lparr>labelCounter := labelCounter st + 1\<rparr>) = Inr st1" and
          g2: "generateAll (children body)
                 (emit st1 (''  JNZ LABEL'' @ show_int (labelCounter st))) = Inr st2" and
          r: "st' = emit st2 (''LABEL'' @ show_int (labelCounter st) @ '':'')"
          by blast
        from True have nt: "node_value node \<noteq> ''Declaration''" "node_value node \<noteq> ''Assignment''"
          by simp_all
        from 1(2) [OF np nt True c c0] g1
        have a: "symbolTable st1 = declare_names (declared condition) (symbolTable st)"
          and a': "\<And>m. generateAssembly condition (st\<lparr>symbolTable := m, labelCounter := labelCounter st + 1\<rparr>) =
            Inr (st1\<lparr>symbolTable := declare_names (declared condition) m\<rparr>)"
          unfolding update_order by simp_all
        from 1(3) [OF np nt True c c0 g1 c1] g2
        have b: "symbolTable st2 = declare_names (declared_all (children body)) (symbolTable st1)"
          and b': "\<And>m. generateAll (children body)
                 ((emit st1 (''  JNZ LABEL'' @ show_int (labelCounter st)))\<lparr>symbolTable := m\<rparr>) =
            Inr (st2\<lparr>symbolTable := declare_names (declared_all (children body)) m\<rparr>)"
          by (simp_all add: emit_symbolTable)
        have "symbolTable st' = declare_names (declared node) (symbolTable st)"
          by (simp add: r a b declared_If [OF True c0 c1] declare_names_Un emit_symbolTable)
        moreover have "\<forall>m. generateAssembly node (st\<lparr>symbolTable := m\<rparr>) =
            Inr (st'\<lparr>symbolTable := declare_names (declared node) m\<rparr>)"
          using c c1 a' b'
          by (simp add: gen_If [OF True] c0 r emit_symbolTable
                declared_If [OF True c0 c1] declare_names_Un)
        ultimately show ?thesis by simp
      qed
    qed
  qed
next
  case (2 st)
  show ?case by (simp add: generateAll.simps declare_names_empty)
next
  case (3 stmt stmts st)
  show ?case
  proof (intro allI impI)
    fix st'
    assume g: "generateAll (stmt # stmts) st = Inr st'"
    then obtain st1 where g1: "generateAssembly stmt st = Inr st1"
      and g2: "generateAll stmts st1 = Inr st'"
      by (subst (asm) generateAll.simps) (auto split: sum.splits)
    from 3(1) g1 have a: "symbolTable st1 = declare_names (declared stmt) (symbolTable st)"
      and a': "\<And>m. generateAssembly stmt (st\<lparr>symbolTable := m\<rparr>) =
            Inr (st1\<lparr>symbolTable := declare_names (declared stmt) m\<rparr>)"
      by simp_all
    from 3(2) [OF g1] g2 have b: "symbolTable st' = declare_names (declared_all stmts) (symbolTable st1)"
      and b': "\<And>m. generateAll stmts (st1\<lparr>symbolTable := m\<rparr>) =
            Inr (st'\<lparr>symbolTable := declare_names (declared_all stmts) m\<rparr>)"
      by simp_all
    show "symbolTable st' = declare_names (declared_all (stmt # stmts)) (symbolTable st)
        \<and> (\<forall>m. generateAll (stmt # stmts) (st\<lparr>symbolTable := m\<rparr>) =
            Inr (st'\<lparr>symbolTable := declare_names (declared_all (stmt # stmts)) m\<rparr>))"
      by (simp add: a b a' b' declare_names_Un generateAll.simps)
  qed
qed

lemma gen_declaration:
  "generateAssembly (ASTNode ''Declaration'' [ASTNode ''Identifier'' [ASTNode name []]]) st
   = Inr (st\<lparr>symbolTable := (symbolTable st)(name \<mapsto> 0)\<rparr>)"
  by (simp add: generateAssembly.simps child_def)

lemma parseDeclaration_shape:
  assumes "parseDeclaration tokens pos = Inr (decl, pos')"
  shows "decl = ASTNode ''Declaration''
                  [ASTNode ''Identifier'' [ASTNode (tok_value (tokens ! (pos + 1))) []]]"
  using assms unfolding parseDeclaration_def consume_def token_at_def
  by (simp split: sum.splits if_splits prod.splits)

lemma two_declarations:
  "generateAssembly
     (ASTNode ''Program''
        [ASTNode ''Declaration'' [ASTNode ''Identifier'' [ASTNode ''x'' []]],
         ASTNode ''Declaration'' [ASTNode ''Identifier'' [ASTNode ''x'' []]]]) init_state
   = Inr (init_state\<lparr>symbolTable := [''x'' \<mapsto> 0]\<rparr>)"
  by (simp add: generateAssembly.simps generateAll.simps child_def init_state_def)

lemma declared_two_declarations:
  "declared
     (ASTNode ''Program''
        [ASTNode ''Declaration'' [ASTNode ''Identifier'' [ASTNode ''x'' []]],
         ASTNode ''Declaration'' [ASTNode ''Identifier'' [ASTNode ''x'' []]]]) = {''x''}"
  by (simp add: declared.simps)


section \<open>Label numbers\<close>

text \<open>
  The decimal text of a number determines the number: \<open>read_nat\<close> reads back what
  \<open>show_nat\<close> writes.
\<close>

definition read_nat :: "string \<Rightarrow> nat" where
  "read_nat s = foldl (\<lambda>a c. 10 * a + (of_char c - 48)) 0 s"

lemma read_show_nat: "read_nat (show_nat n) = n"
proof (induction n rule: show_nat.induct)
  case (1 n)
  show ?case
  proof (cases "n < 10")
    case True
    then show ?thesis
      by (subst show_nat.simps) (simp add: read_nat_def)
  next
    case False
    have "n mod 10 < 10" by simp
    then have d: "(48 + n mod 10) mod 256 = 48 + n mod 10" by simp
    from False "1.IH" have "read_nat (show_nat (n div 10)) = n div 10" by simp
    with False d show ?thesis
      by (subst show_nat.simps) (simp add: read_nat_def)
  qed
qed

lemma show_nat_inj: "show_nat m = show_nat n \<Longrightarrow> m = n"
  by (metis read_show_nat)

lemma show_nat_digits: "show_nat n \<noteq> [] \<and> (\<forall>c \<in> set (show_nat n). isdigit c)"
proof (induction n rule: show_nat.induct)
  case (1 n)
  show ?case
  proof (cases "n < 10")
    case True
    then show ?thesis
      by (subst (1 2) show_nat.simps) (simp add: isdigit_def)
  next
    case False
    have "n mod 10 < 10" by simp
    then have d: "(48 + n mod 10) mod 256 = 48 + n mod 10" by simp
    from False "1.IH" d show ?thesis
      by (subst (1 2) show_nat.simps) (simp add: isdigit_def)
  qed
qed

lemma show_nat_no_sign: "show_nat n \<noteq> CHR ''-'' # s"
proof
  assume a: "show_nat n = CHR ''-'' # s"
  then have "CHR ''-'' \<in> set (show_nat n)" by simp
  with show_nat_digits [of n] have "isdigit (CHR ''-'')" by blast
  then show False by (simp add: isdigit_def)
qed

lemma show_int_inj: "show_int i = show_int j \<Longrightarrow> i = j"
  using show_nat_no_sign [of "nat i"] show_nat_no_sign [of "nat j"]
  by (auto simp: show_int_def split: if_splits dest!: show_nat_inj) metis+


text \<open>
  \<open>fresh_labels c c' ls\<close> says that the lines \<open>ls\<close>, written while the counter went
  from \<open>c\<close> to \<open>c'\<close>, define each label from \<open>c\<close> up to \<open>c' - 1\<close> once and no other.
\<close>

definition fresh_labels :: "int \<Rightarrow> int \<Rightarrow> string list \<Rightarrow> bool" where
  "fresh_labels c c' ls =
     (c \<le> c' \<and> distinct (label_lines ls)
      \<and> set (label_lines ls) = label_definition ` {c ..< c'})"

lemma label_definition_inj: "label_definition m = label_definition n \<Longrightarrow> m = n"
  by (simp add: label_definition_def show_int_inj)

lemma label_definition_not_indented: "\<not> indented (label_definition n)"
  by (simp add: label_definition_def indented_def)

lemma label_lines_indented: "\<forall>l \<in> set ls. indented l \<Longrightarrow> label_lines ls = []"
  by (simp add: label_lines_def)

lemma label_lines_append: "label_lines (xs @ ys) = label_lines xs @ label_lines ys"
  by (simp add: label_lines_def)

lemma fresh_labels_indented: "\<forall>l \<in> set ls. indented l \<Longrightarrow> fresh_labels c c ls"
  by (simp add: fresh_labels_def label_lines_indented)

lemma fresh_labels_append:
  assumes "fresh_labels c c1 xs" "fresh_labels c1 c2 ys"
  shows "fresh_labels c c2 (xs @ ys)"
proof -
  from assms have le: "c \<le> c1" "c1 \<le> c2" by (simp_all add: fresh_labels_def)
  then have split: "{c ..< c2} = {c ..< c1} \<union> {c1 ..< c2}" by auto
  have disj: "label_definition ` {c ..< c1} \<inter> label_definition ` {c1 ..< c2} = {}"
    by (auto dest!: label_definition_inj)
  from assms le disj show ?thesis
    by (simp add: fresh_labels_def label_lines_append split image_Un)
qed

lemma fresh_labels_If:
  assumes "fresh_labels (c + 1) c' ls"
  shows "fresh_labels c c' (ls @ [label_definition c])"
proof -
  from assms have le: "c + 1 \<le> c'" by (simp add: fresh_labels_def)
  then have split: "{c ..< c'} = insert c {c + 1 ..< c'}" by auto
  have new: "label_definition c \<notin> label_definition ` {c + 1 ..< c'}"
    by (auto dest!: label_definition_inj)
  from assms le new show ?thesis
    by (simp add: fresh_labels_def label_lines_append split label_lines_def
          label_definition_not_indented)
qed

lemma emit_cout: "cout (emit s l) = cout s @ [l]"
  by (simp add: emit_def)

lemma gen_labels:
  "\<forall>st'. generateAssembly node st = Inr st' \<longrightarrow>
      (\<exists>ls. cout st' = cout st @ ls \<and> fresh_labels (labelCounter st) (labelCounter st') ls)"
  "\<forall>st'. generateAll nodes st1 = Inr st' \<longrightarrow>
      (\<exists>ls. cout st' = cout st1 @ ls \<and> fresh_labels (labelCounter st1) (labelCounter st') ls)"
proof (induct rule: generateAssembly_generateAll.induct)
  case (1 node st)
  show ?case
  proof (intro allI impI)
    fix st'
    assume g: "generateAssembly node st = Inr st'"
    show "\<exists>ls. cout st' = cout st @ ls \<and> fresh_labels (labelCounter st) (labelCounter st') ls"
    proof (cases "node_value node = ''Program''")
      case True
      then have u: "\<And>s. generateAssembly node s = generateAll (children node) s"
        by (subst generateAssembly.simps) simp
      from g 1(1) [OF True] show ?thesis
        by (simp add: u)
    next
      case np: False
      show ?thesis
      proof (cases "node_value node = ''If''")
        case False
        from gen_leaf [OF np False g] obtain ls where
          i: "\<forall>l \<in> set ls. indented l" and
          u: "\<And>s. generateAssembly node s =
                  Inr (s\<lparr>symbolTable := declare_names (declared node) (symbolTable s),
                         cout := cout s @ ls\<rparr>)"
          by blast
        from g u [of st] have "cout st' = cout st @ ls" "labelCounter st' = labelCounter st"
          by auto
        with fresh_labels_indented [OF i] show ?thesis
          by auto
      next
        case True
        from gen_If_Inr [OF True g] obtain condition body st1 st2 where
          c: "labelCounter st \<noteq> 2147483647" and
          c0: "child node 0 = Inr condition" and c1: "child node 1 = Inr body" and
          g1: "generateAssembly condition (st\<lparr>labelCounter := labelCounter st + 1\<rparr>) = Inr st1" and
          g2: "generateAll (children body)
                 (emit st1 (''  JNZ LABEL'' @ show_int (labelCounter st))) = Inr st2" and
          r: "st' = emit st2 (''LABEL'' @ show_int (labelCounter st) @ '':'')"
          by blast
        from True have nt: "node_value node \<noteq> ''Declaration''" "node_value node \<noteq> ''Assignment''"
          by simp_all
        from 1(2) [OF np nt True c c0] g1 obtain xs where
          a: "cout st1 = cout st @ xs" "fresh_labels (labelCounter st + 1) (labelCounter st1) xs"
          by auto
        from 1(3) [OF np nt True c c0 g1 c1] g2 obtain ys where
          b: "cout st2 = cout st1 @ [''  JNZ LABEL'' @ show_int (labelCounter st)] @ ys"
             "fresh_labels (labelCounter st1) (labelCounter st2) ys"
          by (auto simp: emit_cout emit_symbolTable)
        have j: "fresh_labels (labelCounter st1) (labelCounter st1)
                   [''  JNZ LABEL'' @ show_int (labelCounter st)]"
          by (rule fresh_labels_indented) (simp add: indented_def)
        from fresh_labels_append [OF a(2) fresh_labels_append [OF j b(2)]]
        have "fresh_labels (labelCounter st) (labelCounter st2)
                ((xs @ [''  JNZ LABEL'' @ show_int (labelCounter st)] @ ys)
                   @ [label_definition (labelCounter st)])"
          by (rule fresh_labels_If)
        moreover have "cout st' = cout st @
                (xs @ [''  JNZ LABEL'' @ show_int (labelCounter st)] @ ys)
                   @ [label_definition (labelCounter st)]"
          by (simp add: r emit_cout a(1) b(1) label_definition_def)
        moreover have "labelCounter st' = labelCounter st2"
          by (simp add: r emit_symbolTable)
        ultimately show ?thesis
          by metis
      qed
    qed
  qed
next
  case (2 st)
  show ?case
    by (simp add: generateAll.simps fresh_labels_def label_lines_def)
next
  case (3 stmt stmts st)
  show ?case
  proof (intro allI impI)
    fix st'
    assume g: "generateAll (stmt # stmts) st = Inr st'"
    then obtain st1 where g1: "generateAssembly stmt st = Inr st1"
      and g2: "generateAll stmts st1 = Inr st'"
      by (subst (asm) generateAll.simps) (auto split: sum.splits)
    from 3(1) g1 obtain xs where
      a: "cout st1 = cout st @ xs" "fresh_labels (labelCounter st) (labelCounter st1) xs"
      by auto
    from 3(2) [OF g1] g2 obtain ys where
      b: "cout st' = cout st1 @ ys" "fresh_labels (labelCounter st1) (labelCounter st') ys"
      by auto
    from a(1) b(1) have "cout st' = cout st @ (xs @ ys)" by simp
    with fresh_labels_append [OF a(2) b(2)]
    show "\<exists>ls. cout st' = cout st @ ls \<and> fresh_labels (labelCounter st) (labelCounter st') ls"
      by blast
  qed
qed

section \<open>The generator on the trees of the parser\<close>

text \<open>
  \<open>generates node\<close>: on \<open>node\<close> the generator reads no child that is missing; it can
  only stop at the overflow of the label counter.
\<close>

definition generates :: "ASTNode \<Rightarrow> bool" where
  "generates node = (\<forall>st e. generateAssembly node st = Inl e \<longrightarrow> e = Signed_overflow)"

lemma generates_total: "(\<And>st. \<exists>st'. generateAssembly node st = Inr st') \<Longrightarrow> generates node"
  unfolding generates_def by (metis Inl_Inr_False)

lemma generateAll_generates:
  "\<forall>s \<in> set nodes. generates s \<Longrightarrow> generateAll nodes st = Inl e \<Longrightarrow> e = Signed_overflow"
proof (induction nodes arbitrary: st)
  case Nil
  then show ?case by (simp add: generateAll.simps)
next
  case (Cons n ns)
  from Cons.prems(2) show ?case
  proof (subst (asm) generateAll.simps, cases "generateAssembly n st")
    case (Inl x)
    assume "(case generateAssembly n st of Inl e \<Rightarrow> Inl e | Inr st1 \<Rightarrow> generateAll ns st1) = Inl e"
    with Inl have "generateAssembly n st = Inl e" by simp
    with Cons.prems(1) show ?thesis by (simp add: generates_def)
  next
    case (Inr s)
    assume "(case generateAssembly n st of Inl e \<Rightarrow> Inl e | Inr st1 \<Rightarrow> generateAll ns st1) = Inl e"
    with Inr have "generateAll ns s = Inl e" by simp
    with Cons.IH [of s] Cons.prems(1) show ?thesis by simp
  qed
qed

lemma parseDeclaration_generates:
  "parseDeclaration tokens pos = Inr (decl, pos') \<Longrightarrow> generates decl"
proof (rule generates_total)
  fix st
  assume "parseDeclaration tokens pos = Inr (decl, pos')"
  from parseDeclaration_shape [OF this]
  show "\<exists>st'. generateAssembly decl st = Inr st'"
    by (simp add: gen_declaration)
qed

lemma parseAssignment_generates:
  assumes wf: "\<forall>t \<in> set tokens. lexed t" and p: "parseAssignment tokens pos = Inr (node, pos')"
  shows "generates node"
proof (rule generates_total)
  fix st
  from p obtain target e p1 p2 where
    n: "node = ASTNode ''Assignment'' [ASTNode ''Identifier'' [ASTNode target []], e]" and
    e: "parseExpression tokens p1 = Inr (e, p2)"
    by (auto elim: parseAssignment_shape)
  show "\<exists>st'. generateAssembly node st = Inr st'"
  proof (cases rule: parseExpression_shape [OF wf e])
    case (1 tag v)
    then show ?thesis
      by (cases "tag = ''Number''") (simp_all add: n gen_assign_number gen_assign_other)
  next
    case (2 op lt l rt r)
    then show ?thesis
      by (cases "op = ''+''") (simp_all add: n gen_assign_plus gen_assign_other)
  qed
qed

lemma parseIfStatement_shape:
  assumes "parseIfStatement tokens pos = Inr (node, pos')"
  obtains condition p p' body q q' where
    "node = ASTNode ''If'' [condition, ASTNode ''Body'' body]"
    "parseCondition tokens p = Inr (condition, p')"
    "parseIfBody tokens q [] = Inr (body, q')"
  using assms
  by (subst (asm) parseIfStatement.simps) (auto split: sum.splits)

lemma If_generates:
  assumes c: "parseCondition tokens p = Inr (condition, p')"
    and b: "\<forall>s \<in> set body. generates s"
  shows "generates (ASTNode ''If'' [condition, ASTNode ''Body'' body])"
  unfolding generates_def
proof (intro allI impI)
  fix st e
  assume g: "generateAssembly (ASTNode ''If'' [condition, ASTNode ''Body'' body]) st = Inl e"
  from parseCondition_shape [OF c] obtain lt rt where
    cs: "condition = ASTNode ''=='' [ASTNode lt [ASTNode (tok_value (tokens ! p)) []],
                                     ASTNode rt [ASTNode (tok_value (tokens ! (p + 2))) []]]"
    by auto
  show "e = Signed_overflow"
  proof (cases "labelCounter st = 2147483647")
    case True
    with g show ?thesis by (simp add: gen_If)
  next
    case False
    with g obtain s where "generateAll body s = Inl e"
      by (simp add: gen_If child_def cs gen_condition split: sum.splits)
    with generateAll_generates [OF b] show ?thesis by simp
  qed
qed

lemma parse_generates:
  "(\<forall>t \<in> set tokens. lexed t) \<longrightarrow>
     (\<forall>n pos'. parseStatement tokens pos = Inr (n, pos') \<longrightarrow> generates n)"
  "(\<forall>t \<in> set tokens1. lexed t) \<longrightarrow>
     (\<forall>n pos'. parseIfStatement tokens1 posa = Inr (n, pos') \<longrightarrow> generates n)"
  "(\<forall>t \<in> set tokens2. lexed t) \<longrightarrow> (\<forall>s \<in> set body. generates s) \<longrightarrow>
     (\<forall>b pos'. parseIfBody tokens2 posb body = Inr (b, pos') \<longrightarrow> (\<forall>s \<in> set b. generates s))"
proof (induct rule: parseStatement_parseIfStatement_parseIfBody.induct)
  case (1 tokens pos)
  show ?case
  proof (intro allI impI)
    fix n pos'
    assume wf: "\<forall>t \<in> set tokens. lexed t" and p: "parseStatement tokens pos = Inr (n, pos')"
    from p obtain t where t: "token_at tokens pos = Inr t"
      by (subst (asm) parseStatement.simps) (auto split: sum.splits)
    show "generates n"
    proof (cases "tok_type t = INT_KEYWORD")
      case True
      with p t have "parseDeclaration tokens pos = Inr (n, pos')"
        by (subst (asm) parseStatement.simps) simp
      then show ?thesis by (rule parseDeclaration_generates)
    next
      case ni: False
      show ?thesis
      proof (cases "tok_type t = IF_KEYWORD")
        case True
        with p t ni have "parseIfStatement tokens pos = Inr (n, pos')"
          by (subst (asm) parseStatement.simps) simp
        with 1 [OF t ni True] wf show ?thesis by simp
      next
        case False
        with p t ni have "parseAssignment tokens pos = Inr (n, pos')"
          by (subst (asm) parseStatement.simps) simp
        with wf show ?thesis by (rule parseAssignment_generates)
      qed
    qed
  qed
next
  case (2 tokens pos)
  show ?case
  proof (intro allI impI)
    fix n pos'
    assume wf: "\<forall>t \<in> set tokens. lexed t" and p: "parseIfStatement tokens pos = Inr (n, pos')"
    from p obtain t1 pos1 t2 pos2 c pos3 t4 pos4 t5 pos5 b pos6 t7 where
      c1: "consume tokens pos IF_KEYWORD = Inr (t1, pos1)" and
      c2: "consume tokens pos1 LPAREN = Inr (t2, pos2)" and
      c3: "parseCondition tokens pos2 = Inr (c, pos3)" and
      c4: "consume tokens pos3 RPAREN = Inr (t4, pos4)" and
      c5: "consume tokens pos4 LBRACE = Inr (t5, pos5)" and
      c6: "parseIfBody tokens pos5 [] = Inr (b, pos6)" and
      c7: "consume tokens pos6 RBRACE = Inr (t7, pos')" and
      n: "n = ASTNode ''If'' [c, ASTNode ''Body'' b]"
      by (subst (asm) parseIfStatement.simps) (auto split: sum.splits)
    from 2 [OF c1 refl c2 refl c3 refl c4 refl c5 refl] wf c6
    have "\<forall>s \<in> set b. generates s" by simp
    with c3 show "generates n" unfolding n by (rule If_generates)
  qed
next
  case (3 tokens pos body)
  show ?case
  proof (intro allI impI)
    fix b pos'
    assume wf: "\<forall>t \<in> set tokens. lexed t" and inv: "\<forall>s \<in> set body. generates s"
      and p: "parseIfBody tokens pos body = Inr (b, pos')"
    from p obtain t where t: "token_at tokens pos = Inr t"
      by (subst (asm) parseIfBody.simps) (auto split: sum.splits)
    show "\<forall>s \<in> set b. generates s"
    proof (cases "tok_type t \<noteq> RBRACE")
      case False
      with p t have "b = body"
        by (subst (asm) parseIfBody.simps) simp
      with inv show ?thesis by simp
    next
      case True
      with p t obtain stmt pos1 where
        s: "parseStatement tokens pos = Inr (stmt, pos1)" and
        r: "parseIfBody tokens pos1 (body @ [stmt]) = Inr (b, pos')"
        by (subst (asm) parseIfBody.simps) (auto split: sum.splits)
      from 3(1) [OF t True] wf s have "generates stmt" by simp
      with inv have "\<forall>s \<in> set (body @ [stmt]). generates s" by simp
      with 3(2) [OF t True s refl] wf r show ?thesis by simp
    qed
  qed
qed

lemma parseProgram_loop_generates:
  "\<forall>t \<in> set tokens. lexed t \<Longrightarrow> \<forall>s \<in> set stmts. generates s \<Longrightarrow>
   parseProgram_loop tokens pos stmts = Inr root \<Longrightarrow>
   \<exists>ss. root = ASTNode ''Program'' ss \<and> (\<forall>s \<in> set ss. generates s)"
proof (induction tokens pos stmts rule: parseProgram_loop.induct)
  case (1 tokens pos stmts)
  show ?case
  proof (cases "pos < length tokens")
    case False
    with "1.prems" show ?thesis
      by (subst (asm) parseProgram_loop.simps) auto
  next
    case True
    note wf = "1.prems"(1)
    from True "1.prems"(3) obtain stmt pos1 where
      s: "parseStatement tokens pos = Inr (stmt, pos1)" and
      r: "parseProgram_loop tokens pos1 (stmts @ [stmt]) = Inr root"
      by (subst (asm) parseProgram_loop.simps) (auto split: sum.splits)
    from parse_generates(1) [of tokens pos] wf s have "generates stmt" by blast
    with "1.prems"(2) have "\<forall>s \<in> set (stmts @ [stmt]). generates s" by simp
    from "1.IH" [OF True s refl wf this r] show ?thesis .
  qed
qed

lemma parseProgram_generates:
  assumes "tokenize source = Inr tokens" "parseProgram tokens = Inr root"
    "generateAssembly root st = Inl e"
  shows "e = Signed_overflow"
proof -
  from assms(1) have wf: "\<forall>t \<in> set tokens. lexed t"
    by (auto dest: tokenize_lexed)
  from parseProgram_loop_generates [OF wf, of "[]" 0 root] assms(2)
  obtain ss where r: "root = ASTNode ''Program'' ss" and g: "\<forall>s \<in> set ss. generates s"
    by (auto simp: parseProgram_def)
  from assms(3) r have "generateAll ss st = Inl e"
    by (subst (asm) generateAssembly.simps) simp
  with generateAll_generates [OF g] show ?thesis by simp
qed

lemma gen_If_shape:
  "labelCounter st \<noteq> 2147483647 \<Longrightarrow>
   generateAssembly
     (ASTNode ''If'' [ASTNode ''=='' [ASTNode lt [ASTNode l []], ASTNode rt [ASTNode r []]],
                      ASTNode ''Body'' stmts]) st
   = (case generateAll stmts
             (st\<lparr>labelCounter := labelCounter st + 1,
                 cout := cout st @ [''  MOV A, '' @ l, ''  CPI '' @ r,
                                    ''  JNZ LABEL'' @ show_int (labelCounter st)]\<rparr>) of
        Inl e \<Rightarrow> Inl e
      | Inr st2 \<Rightarrow> Inr (st2\<lparr>cout := cout st2 @ [''LABEL'' @ show_int (labelCounter st) @ '':'']\<rparr>))"
  by (simp add: gen_If child_def gen_condition emit_def split: sum.splits)

lemma parse_if_x_1:
  "parseIfStatement
     [Token IF_KEYWORD ''if'', Token LPAREN ''('', Token IDENTIFIER ''x'', Token EQ_OP ''=='',
      Token NUMBER ''1'', Token RPAREN '')'', Token LBRACE ''{'', Token RBRACE ''}''] 0
   = Inr (ASTNode ''If'' [ASTNode ''=='' [ASTNode ''Identifier'' [ASTNode ''x'' []],
                                          ASTNode ''Number'' [ASTNode ''1'' []]],
                          ASTNode ''Body'' []], 8)"
  by code_simp

lemma show_int_0: "show_int 0 = ''0''"
  by code_simp


lemma main_prints_listing:
  "listing (concat ls) = Inr ls' \<Longrightarrow>
   \<exists>tree. main (Some ls) =
     Inr \<lparr>stdout = unlines tree @ unlines ['''', ''Assembly Code:''] @ unlines ls',
          stderr = [], exit_code = 0\<rparr>"
  by (auto simp: listing_def main_def split: sum.splits)

section \<open>The claims of the specification\<close>

lemma tokenize_x_y_3:
  "tokenize ''x = y + 3;'' =
     Inr [Token IDENTIFIER ''x'', Token ASSIGN_OP ''='', Token IDENTIFIER ''y'',
          Token PLUS_OP ''+'', Token NUMBER ''3'', Token SEMICOLON '';'']"
  by code_simp

lemma parseAssignment_x_y_3:
  "parseAssignment
     [Token IDENTIFIER ''x'', Token ASSIGN_OP ''='', Token IDENTIFIER ''y'',
      Token PLUS_OP ''+'', Token NUMBER ''3'', Token SEMICOLON '';''] 0
   = Inr (ASTNode ''Assignment''
            [ASTNode ''Identifier'' [ASTNode ''x'' []],
             ASTNode ''+'' [ASTNode ''Identifier'' [ASTNode ''y'' []],
                            ASTNode ''Number'' [ASTNode ''3'' []]]], 6)"
  by code_simp

text \<open>
  Claim C1. Every Assignment node the parser builds from the tokens of the lexer has an
  Identifier child naming the target and an expression child. When the expression is a
  \<open>Number\<close> node, \<open>generateAssembly\<close> writes \<^verbatim>\<open>MVI A, <numeral>\<close> and then
  \<^verbatim>\<open>STA <target>\<close>. When it is a \<open>+\<close> node, its operands are Identifier or Number
  nodes and the lines are \<^verbatim>\<open>MOV A, <name>\<close> or \<^verbatim>\<open>MVI A, <numeral>\<close> for the first
  operand, \<^verbatim>\<open>ADD <name>\<close> or \<^verbatim>\<open>ADI <numeral>\<close> for the second, then
  \<^verbatim>\<open>STA <target>\<close>. Nothing else is written and nothing else of the state changes
  (instruction lines carry the two-space indentation of the source). The run on
  \<^verbatim>\<open>x = 5;\<close> lists \<^verbatim>\<open>MVI A, 5\<close>, \<^verbatim>\<open>STA x\<close>, and the run on \<^verbatim>\<open>x = y + 3;\<close> lists
  \<^verbatim>\<open>MOV A, y\<close>, \<^verbatim>\<open>ADI 3\<close>, \<^verbatim>\<open>STA x\<close>.
\<close>

theorem assignment_codegen:
  "(tokenize source = Inr tokens \<and> parseAssignment tokens pos = Inr (node, pos') \<longrightarrow>
      (\<exists>target expr.
          node = ASTNode ''Assignment'' [ASTNode ''Identifier'' [ASTNode target []], expr]
        \<and> (node_value expr = ''Number'' \<longrightarrow>
              (\<exists>num. expr = ASTNode ''Number'' [ASTNode num []]
                 \<and> (\<forall>st. generateAssembly node st =
                        Inr (st\<lparr>cout := cout st @ [''  MVI A, '' @ num, ''  STA '' @ target]\<rparr>))))
        \<and> (node_value expr = ''+'' \<longrightarrow>
              (\<exists>lt l rt r.
                  expr = ASTNode ''+'' [ASTNode lt [ASTNode l []], ASTNode rt [ASTNode r []]]
                \<and> (lt = ''Identifier'' \<or> lt = ''Number'') \<and> (rt = ''Identifier'' \<or> rt = ''Number'')
                \<and> (\<forall>st. generateAssembly node st =
                        Inr (st\<lparr>cout := cout st @
                               [(if lt = ''Identifier'' then ''  MOV A, '' else ''  MVI A, '') @ l,
                                (if rt = ''Identifier'' then ''  ADD '' else ''  ADI '') @ r,
                                ''  STA '' @ target]\<rparr>))))))
   \<and> listing ''x = 5;'' = Inr [''  MVI A, 5'', ''  STA x'']
   \<and> listing ''x = y + 3;'' = Inr [''  MOV A, y'', ''  ADI 3'', ''  STA x'']"
proof (intro conjI impI)
  assume a: "tokenize source = Inr tokens \<and> parseAssignment tokens pos = Inr (node, pos')"
  then have wf: "\<forall>t \<in> set tokens. lexed t"
    by (auto dest: tokenize_lexed)
  from a obtain target e p p' where
    n: "node = ASTNode ''Assignment'' [ASTNode ''Identifier'' [ASTNode target []], e]" and
    e: "parseExpression tokens p = Inr (e, p')"
    by (auto elim: parseAssignment_shape)
  have "(node_value e = ''Number'' \<longrightarrow>
              (\<exists>num. e = ASTNode ''Number'' [ASTNode num []]
                 \<and> (\<forall>st. generateAssembly node st =
                        Inr (st\<lparr>cout := cout st @ [''  MVI A, '' @ num, ''  STA '' @ target]\<rparr>))))
        \<and> (node_value e = ''+'' \<longrightarrow>
              (\<exists>lt l rt r.
                  e = ASTNode ''+'' [ASTNode lt [ASTNode l []], ASTNode rt [ASTNode r []]]
                \<and> (lt = ''Identifier'' \<or> lt = ''Number'') \<and> (rt = ''Identifier'' \<or> rt = ''Number'')
                \<and> (\<forall>st. generateAssembly node st =
                        Inr (st\<lparr>cout := cout st @
                               [(if lt = ''Identifier'' then ''  MOV A, '' else ''  MVI A, '') @ l,
                                (if rt = ''Identifier'' then ''  ADD '' else ''  ADI '') @ r,
                                ''  STA '' @ target]\<rparr>))))"
  proof (cases rule: parseExpression_shape [OF wf e])
    case (1 tag v)
    with n show ?thesis
      by (auto simp: gen_assign_number)
  next
    case (2 op lt l rt r)
    with n show ?thesis
      by (auto simp: gen_assign_plus)
  qed
  with n show "\<exists>target expr.
          node = ASTNode ''Assignment'' [ASTNode ''Identifier'' [ASTNode target []], expr]
        \<and> (node_value expr = ''Number'' \<longrightarrow>
              (\<exists>num. expr = ASTNode ''Number'' [ASTNode num []]
                 \<and> (\<forall>st. generateAssembly node st =
                        Inr (st\<lparr>cout := cout st @ [''  MVI A, '' @ num, ''  STA '' @ target]\<rparr>))))
        \<and> (node_value expr = ''+'' \<longrightarrow>
              (\<exists>lt l rt r.
                  expr = ASTNode ''+'' [ASTNode lt [ASTNode l []], ASTNode rt [ASTNode r []]]
                \<and> (lt = ''Identifier'' \<or> lt = ''Number'') \<and> (rt = ''Identifier'' \<or> rt = ''Number'')
                \<and> (\<forall>st. generateAssembly node st =
                        Inr (st\<lparr>cout := cout st @
                               [(if lt = ''Identifier'' then ''  MOV A, '' else ''  MVI A, '') @ l,
                                (if rt = ''Identifier'' then ''  ADD '' else ''  ADI '') @ r,
                                ''  STA '' @ target]\<rparr>))))"
    by simp
next
  show "listing ''x = 5;'' = Inr [''  MVI A, 5'', ''  STA x'']"
    by code_simp
next
  show "listing ''x = y + 3;'' = Inr [''  MOV A, y'', ''  ADI 3'', ''  STA x'']"
    by code_simp
qed


theorem assignment_codegen_witness:
  "generateAssembly
     (ASTNode ''Assignment''
        [ASTNode ''Identifier'' [ASTNode ''x'' []],
         ASTNode ''+'' [ASTNode ''Identifier'' [ASTNode ''y'' []],
                        ASTNode ''Number'' [ASTNode ''3'' []]]]) init_state
   = Inr (init_state\<lparr>cout := [''  MOV A, y'', ''  ADI 3'', ''  STA x'']\<rparr>)"
  using assignment_codegen [of "''x = y + 3;''"
      "[Token IDENTIFIER ''x'', Token ASSIGN_OP ''='', Token IDENTIFIER ''y'',
        Token PLUS_OP ''+'', Token NUMBER ''3'', Token SEMICOLON '';'']" 0
      "ASTNode ''Assignment''
        [ASTNode ''Identifier'' [ASTNode ''x'' []],
         ASTNode ''+'' [ASTNode ''Identifier'' [ASTNode ''y'' []],
                        ASTNode ''Number'' [ASTNode ''3'' []]]]" 6]
  by (simp add: tokenize_x_y_3 parseAssignment_x_y_3 init_state_def)


text \<open>
  Claim C2. An If node of the parser has a \<open>==\<close> condition over two operands and a
  \<open>Body\<close> child. Unless the label counter stands at \<^verbatim>\<open>INT_MAX\<close>, \<open>generateAssembly\<close>
  takes the counter's value \<open>n\<close> as the label and increments the counter, writes
  \<^verbatim>\<open>MOV A, <left leaf text>\<close>, \<^verbatim>\<open>CPI <right leaf text>\<close> and \<^verbatim>\<open>JNZ LABEL<n>\<close>, then
  runs the statements of the body in order (\<open>generateAll\<close>: the first statement, then
  the rest from the state it leaves), then writes \<^verbatim>\<open>LABEL<n>:\<close>. Over any traversal
  that returns, the counter does not decrease, and the label definitions among the lines
  written are exactly those of the numbers from the counter's value before to its value
  after, each once: no label is defined twice in one listing. On a tree parsed from the
  tokens of the lexer the generator reads no missing child, so it can only stop at the
  overflow of the counter. The run on \<^verbatim>\<open>if (x == 1) { y = 2; }\<close> lists \<^verbatim>\<open>MOV A, x\<close>,
  \<^verbatim>\<open>CPI 1\<close>, \<^verbatim>\<open>JNZ LABEL0\<close>, \<^verbatim>\<open>MVI A, 2\<close>, \<^verbatim>\<open>STA y\<close>, \<^verbatim>\<open>LABEL0:\<close>, and two
  if-statements in sequence get \<^verbatim>\<open>LABEL0\<close> and then \<^verbatim>\<open>LABEL1\<close>.
\<close>

theorem if_codegen:
  "(parseIfStatement tokens pos = Inr (node, pos') \<longrightarrow>
      (\<exists>lt l rt r stmts.
          node = ASTNode ''If'' [ASTNode ''=='' [ASTNode lt [ASTNode l []], ASTNode rt [ASTNode r []]],
                                 ASTNode ''Body'' stmts]
        \<and> (\<forall>s. labelCounter s \<noteq> 2147483647 \<longrightarrow>
              generateAssembly node s =
                (case generateAll stmts
                        (s\<lparr>labelCounter := labelCounter s + 1,
                           cout := cout s @ [''  MOV A, '' @ l, ''  CPI '' @ r,
                                             ''  JNZ LABEL'' @ show_int (labelCounter s)]\<rparr>) of
                   Inl e \<Rightarrow> Inl e
                 | Inr s2 \<Rightarrow>
                     Inr (s2\<lparr>cout := cout s2 @ [''LABEL'' @ show_int (labelCounter s) @ '':'']\<rparr>)))))
   \<and> generateAll [] st = Inr st
   \<and> generateAll (stmt # rest) st =
        (case generateAssembly stmt st of Inl e \<Rightarrow> Inl e | Inr st1 \<Rightarrow> generateAll rest st1)
   \<and> (generateAssembly root st = Inr st' \<longrightarrow>
        labelCounter st \<le> labelCounter st'
      \<and> (\<exists>ls. cout st' = cout st @ ls \<and> distinct (label_lines ls)
              \<and> set (label_lines ls) = label_definition ` {labelCounter st ..< labelCounter st'}))
   \<and> (tokenize source = Inr lexed_tokens \<and> parseProgram lexed_tokens = Inr program
        \<and> generateAssembly program st = Inl failed \<longrightarrow> failed = Signed_overflow)
   \<and> listing ''if (x == 1) { y = 2; }'' =
        Inr [''  MOV A, x'', ''  CPI 1'', ''  JNZ LABEL0'', ''  MVI A, 2'', ''  STA y'',
             ''LABEL0:'']
   \<and> listing ''if (x == 1) { y = 2; } if (y == 2) { x = 1; }'' =
        Inr [''  MOV A, x'', ''  CPI 1'', ''  JNZ LABEL0'', ''  MVI A, 2'', ''  STA y'',
             ''LABEL0:'',
             ''  MOV A, y'', ''  CPI 2'', ''  JNZ LABEL1'', ''  MVI A, 1'', ''  STA x'',
             ''LABEL1:'']"
proof (intro conjI impI)
  assume p: "parseIfStatement tokens pos = Inr (node, pos')"
  then obtain condition p1 p2 body where
    n: "node = ASTNode ''If'' [condition, ASTNode ''Body'' body]" and
    c: "parseCondition tokens p1 = Inr (condition, p2)"
    by (rule parseIfStatement_shape)
  from parseCondition_shape [OF c] obtain lt rt where
    cs: "condition = ASTNode ''=='' [ASTNode lt [ASTNode (tok_value (tokens ! p1)) []],
                                     ASTNode rt [ASTNode (tok_value (tokens ! (p1 + 2))) []]]"
    by auto
  show "\<exists>lt l rt r stmts.
          node = ASTNode ''If'' [ASTNode ''=='' [ASTNode lt [ASTNode l []], ASTNode rt [ASTNode r []]],
                                 ASTNode ''Body'' stmts]
        \<and> (\<forall>s. labelCounter s \<noteq> 2147483647 \<longrightarrow>
              generateAssembly node s =
                (case generateAll stmts
                        (s\<lparr>labelCounter := labelCounter s + 1,
                           cout := cout s @ [''  MOV A, '' @ l, ''  CPI '' @ r,
                                             ''  JNZ LABEL'' @ show_int (labelCounter s)]\<rparr>) of
                   Inl e \<Rightarrow> Inl e
                 | Inr s2 \<Rightarrow>
                     Inr (s2\<lparr>cout := cout s2 @ [''LABEL'' @ show_int (labelCounter s) @ '':'']\<rparr>)))"
    unfolding n cs by (simp add: gen_If_shape)
next
  show "generateAll [] st = Inr st"
    by (simp add: generateAll.simps)
next
  show "generateAll (stmt # rest) st =
        (case generateAssembly stmt st of Inl e \<Rightarrow> Inl e | Inr st1 \<Rightarrow> generateAll rest st1)"
    by (simp add: generateAll.simps)
next
  assume g: "generateAssembly root st = Inr st'"
  with gen_labels(1) [of root st] show "labelCounter st \<le> labelCounter st'"
    by (auto simp: fresh_labels_def)
next
  assume g: "generateAssembly root st = Inr st'"
  with gen_labels(1) [of root st]
  show "\<exists>ls. cout st' = cout st @ ls \<and> distinct (label_lines ls)
              \<and> set (label_lines ls) = label_definition ` {labelCounter st ..< labelCounter st'}"
    by (auto simp: fresh_labels_def)
next
  assume "tokenize source = Inr lexed_tokens \<and> parseProgram lexed_tokens = Inr program
        \<and> generateAssembly program st = Inl failed"
  then show "failed = Signed_overflow"
    by (auto dest: parseProgram_generates)
next
  show "listing ''if (x == 1) { y = 2; }'' =
        Inr [''  MOV A, x'', ''  CPI 1'', ''  JNZ LABEL0'', ''  MVI A, 2'', ''  STA y'',
             ''LABEL0:'']"
    by code_simp
next
  show "listing ''if (x == 1) { y = 2; } if (y == 2) { x = 1; }'' =
        Inr [''  MOV A, x'', ''  CPI 1'', ''  JNZ LABEL0'', ''  MVI A, 2'', ''  STA y'',
             ''LABEL0:'',
             ''  MOV A, y'', ''  CPI 2'', ''  JNZ LABEL1'', ''  MVI A, 1'', ''  STA x'',
             ''LABEL1:'']"
    by code_simp
qed

theorem if_codegen_witness:
  "generateAssembly
     (ASTNode ''If'' [ASTNode ''=='' [ASTNode ''Identifier'' [ASTNode ''x'' []],
                                      ASTNode ''Number'' [ASTNode ''1'' []]],
                      ASTNode ''Body'' []]) init_state
   = Inr (init_state\<lparr>labelCounter := 1,
                      cout := [''  MOV A, x'', ''  CPI 1'', ''  JNZ LABEL0'', ''LABEL0:'']\<rparr>)"
  using if_codegen [of
      "[Token IF_KEYWORD ''if'', Token LPAREN ''('', Token IDENTIFIER ''x'', Token EQ_OP ''=='',
        Token NUMBER ''1'', Token RPAREN '')'', Token LBRACE ''{'', Token RBRACE ''}'']" 0
      "ASTNode ''If'' [ASTNode ''=='' [ASTNode ''Identifier'' [ASTNode ''x'' []],
                                       ASTNode ''Number'' [ASTNode ''1'' []]],
                       ASTNode ''Body'' []]" 8]
  by (simp add: parse_if_x_1 generateAll.simps init_state_def show_int_0)

text \<open>
  Claim C3 says that every read the parser makes of the token sequence is in bounds and
  that a truncated input ends in the parse error. The code reads \<^verbatim>\<open>tokens[pos]\<close>
  without comparing \<open>pos\<close> with the size. On the source \<^verbatim>\<open>int x\<close> (two tokens),
  \<open>consume SEMICOLON\<close> reads position 2 of a sequence of length 2, and on an
  if-statement whose brace is not closed the loop of \<open>parseIfStatement\<close> reads past the
  last token: the parse ends in \<open>Out_of_range\<close>, not in a \<open>Runtime_error\<close>, and so does
  the whole run.
\<close>

theorem parse_truncated_reads_out_of_range:
  "tokenize ''int x'' = Inr [Token INT_KEYWORD ''int'', Token IDENTIFIER ''x'']
   \<and> consume [Token INT_KEYWORD ''int'', Token IDENTIFIER ''x''] 2 SEMICOLON = Inl Out_of_range
   \<and> parseProgram [Token INT_KEYWORD ''int'', Token IDENTIFIER ''x''] = Inl Out_of_range
   \<and> tokenize ''if (x == 1) { y = 2;'' =
        Inr [Token IF_KEYWORD ''if'', Token LPAREN ''('', Token IDENTIFIER ''x'',
             Token EQ_OP ''=='', Token NUMBER ''1'', Token RPAREN '')'', Token LBRACE ''{'',
             Token IDENTIFIER ''y'', Token ASSIGN_OP ''='', Token NUMBER ''2'',
             Token SEMICOLON '';'']
   \<and> parseProgram
        [Token IF_KEYWORD ''if'', Token LPAREN ''('', Token IDENTIFIER ''x'',
         Token EQ_OP ''=='', Token NUMBER ''1'', Token RPAREN '')'', Token LBRACE ''{'',
         Token IDENTIFIER ''y'', Token ASSIGN_OP ''='', Token NUMBER ''2'',
         Token SEMICOLON '';''] = Inl Out_of_range
   \<and> main (Some [''int x'']) = Inl Out_of_range"
  by code_simp


text \<open>
  Claim C4. For every input string \<open>tokenize\<close> returns a token sequence (it never reads
  the source out of range), and the texts of the tokens, joined in order, are the
  characters of the input that are not whitespace, in order. A character that is neither
  whitespace, nor one of \<^verbatim>\<open>= + - ; { } ( )\<close>, nor a letter, nor a digit becomes one
  \<open>UNKNOWN\<close> token that carries it, between the tokens of the text before it and the
  tokens of the text after it. No token spans a whitespace character: the tokens of a
  text with a whitespace character in it are the tokens of the part before followed by
  the tokens of the part after.
\<close>

theorem tokenize_total_and_faithful:
  "(\<exists>tokens. tokenize source = Inr tokens
       \<and> concat (map tok_value tokens) = filter (\<lambda>c. \<not> isspace c) source)
   \<and> (\<not> isspace c \<and> c \<notin> set ''=+-;{}()'' \<and> \<not> isalpha c \<and> \<not> isdigit c \<longrightarrow>
        (\<exists>before after. tokenize a = Inr before \<and> tokenize b = Inr after
           \<and> tokenize (a @ c # b) = Inr (before @ Token UNKNOWN [c] # after)))
   \<and> (isspace c \<longrightarrow>
        (\<exists>before after. tokenize a = Inr before \<and> tokenize b = Inr after
           \<and> tokenize (a @ c # b) = Inr (before @ after)))"
proof (intro conjI impI)
  show "\<exists>tokens. tokenize source = Inr tokens
          \<and> concat (map tok_value tokens) = filter (\<lambda>c. \<not> isspace c) source"
    by (simp add: tokenize_lex lex_concat)
next
  assume u: "\<not> isspace c \<and> c \<notin> set ''=+-;{}()'' \<and> \<not> isalpha c \<and> \<not> isdigit c"
  then have "lex (a @ c # b) = lex a @ lex (c # b)"
    by (intro lex_separator) auto
  with u have "lex (a @ c # b) = lex a @ Token UNKNOWN [c] # lex b"
    by (simp add: lex_unknown)
  then show "\<exists>before after. tokenize a = Inr before \<and> tokenize b = Inr after
           \<and> tokenize (a @ c # b) = Inr (before @ Token UNKNOWN [c] # after)"
    by (simp add: tokenize_lex)
next
  assume w: "isspace c"
  with isspace_separator [OF w] have "lex (a @ c # b) = lex a @ lex b"
    by (simp add: lex_separator lex_whitespace)
  then show "\<exists>before after. tokenize a = Inr before \<and> tokenize b = Inr after
           \<and> tokenize (a @ c # b) = Inr (before @ after)"
    by (simp add: tokenize_lex)
qed

lemma tokenize_x: "tokenize ''x'' = Inr [Token IDENTIFIER ''x'']"
  by code_simp

lemma tokenize_1: "tokenize ''1'' = Inr [Token NUMBER ''1'']"
  by code_simp

theorem tokenize_total_and_faithful_witness:
  "(\<exists>tokens. tokenize ''x = 1 @'' = Inr tokens \<and> concat (map tok_value tokens) = ''x=1@'')
   \<and> tokenize ''x@1'' = Inr [Token IDENTIFIER ''x'', Token UNKNOWN ''@'', Token NUMBER ''1'']
   \<and> tokenize ''x 1'' = Inr [Token IDENTIFIER ''x'', Token NUMBER ''1'']"
proof -
  have f: "filter (\<lambda>c. \<not> isspace c) ''x = 1 @'' = ''x=1@''"
    by (simp add: isspace_def)
  have u: "\<not> isspace (CHR ''@'') \<and> CHR ''@'' \<notin> set ''=+-;{}()'' \<and> \<not> isalpha (CHR ''@'')
             \<and> \<not> isdigit (CHR ''@'')"
    by (simp add: isspace_def isalpha_def isdigit_def)
  have w: "isspace (CHR '' '')"
    by (simp add: isspace_def)
  from tokenize_total_and_faithful [of "''x = 1 @''" "CHR ''@''" "''x''" "''1''"] f u
       tokenize_total_and_faithful [of "''x = 1 @''" "CHR '' ''" "''x''" "''1''"] w
  show ?thesis
    by (simp add: tokenize_x tokenize_1)
qed


lemma parseAssignment_x_y_minus_3:
  "parseAssignment
     [Token IDENTIFIER ''x'', Token ASSIGN_OP ''='', Token IDENTIFIER ''y'',
      Token MINUS_OP ''-'', Token NUMBER ''3'', Token SEMICOLON '';''] 0
   = Inr (ASTNode ''Assignment''
            [ASTNode ''Identifier'' [ASTNode ''x'' []],
             ASTNode ''-'' [ASTNode ''Identifier'' [ASTNode ''y'' []],
                            ASTNode ''Number'' [ASTNode ''3'' []]]], 6)"
  by code_simp

text \<open>
  Claim C5. For every Assignment node of the parser whose expression child is a \<open>-\<close>
  node, \<open>generateAssembly\<close> writes one line only, \<^verbatim>\<open>STA <target>\<close>: no instruction
  for the operator or its operands. The run on \<^verbatim>\<open>x = y - 3;\<close> lists \<^verbatim>\<open>STA x\<close> alone.
\<close>

theorem subtraction_emits_only_store:
  "(parseAssignment tokens pos = Inr (node, pos') \<longrightarrow>
      (\<exists>target expr.
          node = ASTNode ''Assignment'' [ASTNode ''Identifier'' [ASTNode target []], expr]
        \<and> (node_value expr = ''-'' \<longrightarrow>
              (\<forall>st. generateAssembly node st =
                 Inr (st\<lparr>cout := cout st @ [''  STA '' @ target]\<rparr>)))))
   \<and> listing ''x = y - 3;'' = Inr [''  STA x'']"
proof (intro conjI impI)
  assume "parseAssignment tokens pos = Inr (node, pos')"
  then obtain target e where
    n: "node = ASTNode ''Assignment'' [ASTNode ''Identifier'' [ASTNode target []], e]"
    by (auto elim: parseAssignment_shape)
  have "node_value e = ''-'' \<longrightarrow>
          (\<forall>st. generateAssembly node st = Inr (st\<lparr>cout := cout st @ [''  STA '' @ target]\<rparr>))"
    using n gen_assign_other [of "''-''" target "children e"]
    by (cases e) simp
  with n show "\<exists>target expr.
          node = ASTNode ''Assignment'' [ASTNode ''Identifier'' [ASTNode target []], expr]
        \<and> (node_value expr = ''-'' \<longrightarrow>
              (\<forall>st. generateAssembly node st =
                 Inr (st\<lparr>cout := cout st @ [''  STA '' @ target]\<rparr>)))"
    by simp
next
  show "listing ''x = y - 3;'' = Inr [''  STA x'']"
    by code_simp
qed

theorem subtraction_emits_only_store_witness:
  "generateAssembly
     (ASTNode ''Assignment''
        [ASTNode ''Identifier'' [ASTNode ''x'' []],
         ASTNode ''-'' [ASTNode ''Identifier'' [ASTNode ''y'' []],
                        ASTNode ''Number'' [ASTNode ''3'' []]]]) init_state
   = Inr (init_state\<lparr>cout := [''  STA x'']\<rparr>)"
  using subtraction_emits_only_store [of
      "[Token IDENTIFIER ''x'', Token ASSIGN_OP ''='', Token IDENTIFIER ''y'',
        Token MINUS_OP ''-'', Token NUMBER ''3'', Token SEMICOLON '';'']" 0
      "ASTNode ''Assignment''
        [ASTNode ''Identifier'' [ASTNode ''x'' []],
         ASTNode ''-'' [ASTNode ''Identifier'' [ASTNode ''y'' []],
                        ASTNode ''Number'' [ASTNode ''3'' []]]]" 6]
  by (simp add: parseAssignment_x_y_minus_3 init_state_def)


text \<open>
  Claim C6. When the parse of the text read from the file throws, \<open>main\<close> prints
  nothing on standard output (no tree, no header, no instruction), writes the line
  \<^verbatim>\<open>Error: \<close> followed by the message on standard error and returns 0; the message is
  one of the two of the parser.
\<close>

theorem main_aborts_on_parse_failure:
  assumes "tokenize (concat ls) = Inr tokens"
      and "parseProgram tokens = Inl (Runtime_error msg)"
  shows "main (Some ls) = Inr \<lparr>stdout = [], stderr = unlines [''Error: '' @ msg], exit_code = 0\<rparr>
         \<and> (msg = ''Unexpected token'' \<or> msg = ''Expected term'')"
  using assms parseProgram_failures [OF assms(2)]
  by (simp add: main_def parse_failure_def)

theorem main_aborts_on_parse_failure_witness:
  "main (Some [''int x;'', ''x = 5; @ x = 3;'']) =
     Inr \<lparr>stdout = [], stderr = unlines [''Error: Unexpected token''], exit_code = 0\<rparr>"
proof -
  have t: "tokenize (concat [''int x;'', ''x = 5; @ x = 3;'']) =
        Inr [Token INT_KEYWORD ''int'', Token IDENTIFIER ''x'', Token SEMICOLON '';'',
             Token IDENTIFIER ''x'', Token ASSIGN_OP ''='', Token NUMBER ''5'',
             Token SEMICOLON '';'', Token UNKNOWN ''@'', Token IDENTIFIER ''x'',
             Token ASSIGN_OP ''='', Token NUMBER ''3'', Token SEMICOLON '';'']"
    by code_simp
  have p: "parseProgram
        [Token INT_KEYWORD ''int'', Token IDENTIFIER ''x'', Token SEMICOLON '';'',
         Token IDENTIFIER ''x'', Token ASSIGN_OP ''='', Token NUMBER ''5'',
         Token SEMICOLON '';'', Token UNKNOWN ''@'', Token IDENTIFIER ''x'',
         Token ASSIGN_OP ''='', Token NUMBER ''3'', Token SEMICOLON '';'']
      = Inl (Runtime_error ''Unexpected token'')"
    by code_simp
  from main_aborts_on_parse_failure [OF t p] show ?thesis by simp
qed


text \<open>
  Claim C7. At every position of the token sequence that holds a number token,
  \<open>parseTerm\<close> returns the node \<open>Number\<close> whose single child is a leaf carrying the
  token's text; at every position that holds an identifier token it returns the node
  \<open>Identifier\<close> with such a leaf; in both cases the cursor advances by one. At every
  position that holds a token of any other kind it throws \<open>Expected term\<close>.
\<close>

theorem parseTerm_by_kind:
  assumes "pos < length tokens"
  shows "(tok_type (tokens ! pos) = NUMBER \<longrightarrow>
            parseTerm tokens pos =
              Inr (ASTNode ''Number'' [ASTNode (tok_value (tokens ! pos)) []], pos + 1))
       \<and> (tok_type (tokens ! pos) = IDENTIFIER \<longrightarrow>
            parseTerm tokens pos =
              Inr (ASTNode ''Identifier'' [ASTNode (tok_value (tokens ! pos)) []], pos + 1))
       \<and> (tok_type (tokens ! pos) \<noteq> NUMBER \<and> tok_type (tokens ! pos) \<noteq> IDENTIFIER \<longrightarrow>
            parseTerm tokens pos = Inl (Runtime_error ''Expected term''))"
  using assms
  by (simp add: parseTerm_def parseIdentifier_def consume_def token_at_def)

theorem parseTerm_by_kind_witness:
  "parseTerm [Token NUMBER ''5'', Token IDENTIFIER ''y'', Token SEMICOLON '';''] 0 =
     Inr (ASTNode ''Number'' [ASTNode ''5'' []], 1)
   \<and> parseTerm [Token NUMBER ''5'', Token IDENTIFIER ''y'', Token SEMICOLON '';''] 1 =
     Inr (ASTNode ''Identifier'' [ASTNode ''y'' []], 2)
   \<and> parseTerm [Token NUMBER ''5'', Token IDENTIFIER ''y'', Token SEMICOLON '';''] 2 =
     Inl (Runtime_error ''Expected term'')"
  using parseTerm_by_kind [of 0 "[Token NUMBER ''5'', Token IDENTIFIER ''y'', Token SEMICOLON '';'']"]
        parseTerm_by_kind [of 1 "[Token NUMBER ''5'', Token IDENTIFIER ''y'', Token SEMICOLON '';'']"]
        parseTerm_by_kind [of 2 "[Token NUMBER ''5'', Token IDENTIFIER ''y'', Token SEMICOLON '';'']"]
  by simp


text \<open>
  Claim C8. The symbol table starts empty. A Declaration node of the parser makes
  \<open>generateAssembly\<close> set its name to 0 in the table and changes nothing else of the
  state (no line is written). Over any traversal that returns, the table afterwards is
  the table before with every declared name set to 0: no key is removed, every declared
  name is present with value 0, and a second declaration of a name leaves it at 0. No
  branch reads the table: started with any other table, the traversal writes the same
  lines, leaves the same label counter and treats that table in the same way. The run on
  \<^verbatim>\<open>int x; int x;\<close> ends with the table that maps \<open>x\<close> to 0 and nothing written.
\<close>

theorem symbol_table_grows:
  "symbolTable init_state = Map.empty
   \<and> (parseDeclaration tokens pos = Inr (decl, pos') \<longrightarrow>
        (\<exists>name. decl = ASTNode ''Declaration'' [ASTNode ''Identifier'' [ASTNode name []]]
           \<and> (\<forall>s. generateAssembly decl s =
                  Inr (s\<lparr>symbolTable := (symbolTable s)(name \<mapsto> 0)\<rparr>))))
   \<and> (generateAssembly node st = Inr st' \<longrightarrow>
        (\<forall>name. symbolTable st' name =
                  (if name \<in> declared node then Some 0 else symbolTable st name))
      \<and> dom (symbolTable st) \<subseteq> dom (symbolTable st')
      \<and> (\<forall>m. \<exists>s. generateAssembly node (st\<lparr>symbolTable := m\<rparr>) = Inr s
                 \<and> cout s = cout st' \<and> labelCounter s = labelCounter st'
                 \<and> (\<forall>name. symbolTable s name =
                              (if name \<in> declared node then Some 0 else m name))))
   \<and> tokenize ''int x; int x;'' =
        Inr [Token INT_KEYWORD ''int'', Token IDENTIFIER ''x'', Token SEMICOLON '';'',
             Token INT_KEYWORD ''int'', Token IDENTIFIER ''x'', Token SEMICOLON '';'']
   \<and> parseProgram
        [Token INT_KEYWORD ''int'', Token IDENTIFIER ''x'', Token SEMICOLON '';'',
         Token INT_KEYWORD ''int'', Token IDENTIFIER ''x'', Token SEMICOLON '';'']
      = Inr (ASTNode ''Program''
               [ASTNode ''Declaration'' [ASTNode ''Identifier'' [ASTNode ''x'' []]],
                ASTNode ''Declaration'' [ASTNode ''Identifier'' [ASTNode ''x'' []]]])
   \<and> generateAssembly
        (ASTNode ''Program''
           [ASTNode ''Declaration'' [ASTNode ''Identifier'' [ASTNode ''x'' []]],
            ASTNode ''Declaration'' [ASTNode ''Identifier'' [ASTNode ''x'' []]]]) init_state
      = Inr (init_state\<lparr>symbolTable := [''x'' \<mapsto> 0]\<rparr>)"
proof (intro conjI impI)
  show "symbolTable init_state = Map.empty"
    by (simp add: init_state_def)
next
  assume "parseDeclaration tokens pos = Inr (decl, pos')"
  from parseDeclaration_shape [OF this]
  show "\<exists>name. decl = ASTNode ''Declaration'' [ASTNode ''Identifier'' [ASTNode name []]]
           \<and> (\<forall>s. generateAssembly decl s =
                  Inr (s\<lparr>symbolTable := (symbolTable s)(name \<mapsto> 0)\<rparr>))"
    by (simp add: gen_declaration)
next
  assume g: "generateAssembly node st = Inr st'"
  with gen_table(1) [of node st]
  show "\<forall>name. symbolTable st' name =
                  (if name \<in> declared node then Some 0 else symbolTable st name)"
    by (simp add: declare_names_def)
next
  assume g: "generateAssembly node st = Inr st'"
  with gen_table(1) [of node st]
  have "symbolTable st' = declare_names (declared node) (symbolTable st)"
    by simp
  then show "dom (symbolTable st) \<subseteq> dom (symbolTable st')"
    by (auto simp: declare_names_def)
next
  assume g: "generateAssembly node st = Inr st'"
  with gen_table(1) [of node st]
  have "\<And>m. generateAssembly node (st\<lparr>symbolTable := m\<rparr>) =
            Inr (st'\<lparr>symbolTable := declare_names (declared node) m\<rparr>)"
    by simp
  then show "\<forall>m. \<exists>s. generateAssembly node (st\<lparr>symbolTable := m\<rparr>) = Inr s
                 \<and> cout s = cout st' \<and> labelCounter s = labelCounter st'
                 \<and> (\<forall>name. symbolTable s name =
                              (if name \<in> declared node then Some 0 else m name))"
    by (simp add: declare_names_def)
next
  show "tokenize ''int x; int x;'' =
        Inr [Token INT_KEYWORD ''int'', Token IDENTIFIER ''x'', Token SEMICOLON '';'',
             Token INT_KEYWORD ''int'', Token IDENTIFIER ''x'', Token SEMICOLON '';'']"
    by code_simp
next
  show "parseProgram
        [Token INT_KEYWORD ''int'', Token IDENTIFIER ''x'', Token SEMICOLON '';'',
         Token INT_KEYWORD ''int'', Token IDENTIFIER ''x'', Token SEMICOLON '';'']
      = Inr (ASTNode ''Program''
               [ASTNode ''Declaration'' [ASTNode ''Identifier'' [ASTNode ''x'' []]],
                ASTNode ''Declaration'' [ASTNode ''Identifier'' [ASTNode ''x'' []]]])"
    by code_simp
next
  show "generateAssembly
        (ASTNode ''Program''
           [ASTNode ''Declaration'' [ASTNode ''Identifier'' [ASTNode ''x'' []]],
            ASTNode ''Declaration'' [ASTNode ''Identifier'' [ASTNode ''x'' []]]]) init_state
      = Inr (init_state\<lparr>symbolTable := [''x'' \<mapsto> 0]\<rparr>)"
    by (rule two_declarations)
qed

theorem symbol_table_grows_witness:
  "symbolTable init_state ''x'' = None
   \<and> (\<exists>s. generateAssembly
        (ASTNode ''Program''
           [ASTNode ''Declaration'' [ASTNode ''Identifier'' [ASTNode ''x'' []]],
            ASTNode ''Declaration'' [ASTNode ''Identifier'' [ASTNode ''x'' []]]])
        (init_state\<lparr>symbolTable := [''y'' \<mapsto> 7]\<rparr>) = Inr s
      \<and> cout s = [] \<and> labelCounter s = 0
      \<and> symbolTable s ''x'' = Some 0 \<and> symbolTable s ''y'' = Some 7)"
proof -
  from symbol_table_grows [of
      "[Token INT_KEYWORD ''int'', Token IDENTIFIER ''x'', Token SEMICOLON '';'']" 0
      "ASTNode ''Declaration'' [ASTNode ''Identifier'' [ASTNode ''x'' []]]" 3
      "ASTNode ''Program''
           [ASTNode ''Declaration'' [ASTNode ''Identifier'' [ASTNode ''x'' []]],
            ASTNode ''Declaration'' [ASTNode ''Identifier'' [ASTNode ''x'' []]]]"
      init_state "init_state\<lparr>symbolTable := [''x'' \<mapsto> 0]\<rparr>"]
  have e: "symbolTable init_state = Map.empty"
    and m: "\<forall>m. \<exists>s. generateAssembly
        (ASTNode ''Program''
           [ASTNode ''Declaration'' [ASTNode ''Identifier'' [ASTNode ''x'' []]],
            ASTNode ''Declaration'' [ASTNode ''Identifier'' [ASTNode ''x'' []]]])
        (init_state\<lparr>symbolTable := m\<rparr>) = Inr s
      \<and> cout s = cout (init_state\<lparr>symbolTable := [''x'' \<mapsto> 0]\<rparr>)
      \<and> labelCounter s = labelCounter (init_state\<lparr>symbolTable := [''x'' \<mapsto> 0]\<rparr>)
      \<and> (\<forall>name. symbolTable s name = (if name \<in> {''x''} then Some 0 else m name))"
    by (simp_all add: two_declarations declared_two_declarations)
  from m [rule_format, of "[''y'' \<mapsto> 7]"] e show ?thesis
    by (auto simp: init_state_def)
qed

lemma parseAssignment_x_y:
  "parseAssignment
     [Token IDENTIFIER ''x'', Token ASSIGN_OP ''='', Token IDENTIFIER ''y'',
      Token SEMICOLON '';''] 0
   = Inr (ASTNode ''Assignment''
            [ASTNode ''Identifier'' [ASTNode ''x'' []],
             ASTNode ''Identifier'' [ASTNode ''y'' []]], 4)"
  by code_simp

text \<open>
  Claim C9. For every Assignment node of the parser whose expression child is a bare
  \<open>Identifier\<close> node, \<open>generateAssembly\<close> writes one line only, \<^verbatim>\<open>STA <target>\<close>: the
  accumulator is not loaded from the source variable. The run on \<^verbatim>\<open>x = y;\<close> lists
  \<^verbatim>\<open>STA x\<close> alone.
\<close>

theorem identifier_copy_emits_only_store:
  "(parseAssignment tokens pos = Inr (node, pos') \<longrightarrow>
      (\<exists>target expr.
          node = ASTNode ''Assignment'' [ASTNode ''Identifier'' [ASTNode target []], expr]
        \<and> (node_value expr = ''Identifier'' \<longrightarrow>
              (\<forall>st. generateAssembly node st =
                 Inr (st\<lparr>cout := cout st @ [''  STA '' @ target]\<rparr>)))))
   \<and> listing ''x = y;'' = Inr [''  STA x'']"
proof (intro conjI impI)
  assume "parseAssignment tokens pos = Inr (node, pos')"
  then obtain target e where
    n: "node = ASTNode ''Assignment'' [ASTNode ''Identifier'' [ASTNode target []], e]"
    by (auto elim: parseAssignment_shape)
  have "node_value e = ''Identifier'' \<longrightarrow>
          (\<forall>st. generateAssembly node st = Inr (st\<lparr>cout := cout st @ [''  STA '' @ target]\<rparr>))"
    using n gen_assign_other [of "''Identifier''" target "children e"]
    by (cases e) simp
  with n show "\<exists>target expr.
          node = ASTNode ''Assignment'' [ASTNode ''Identifier'' [ASTNode target []], expr]
        \<and> (node_value expr = ''Identifier'' \<longrightarrow>
              (\<forall>st. generateAssembly node st =
                 Inr (st\<lparr>cout := cout st @ [''  STA '' @ target]\<rparr>)))"
    by simp
next
  show "listing ''x = y;'' = Inr [''  STA x'']"
    by code_simp
qed

theorem identifier_copy_emits_only_store_witness:
  "generateAssembly
     (ASTNode ''Assignment''
        [ASTNode ''Identifier'' [ASTNode ''x'' []],
         ASTNode ''Identifier'' [ASTNode ''y'' []]]) init_state
   = Inr (init_state\<lparr>cout := [''  STA x'']\<rparr>)"
  using identifier_copy_emits_only_store [of
      "[Token IDENTIFIER ''x'', Token ASSIGN_OP ''='', Token IDENTIFIER ''y'',
        Token SEMICOLON '';'']" 0
      "ASTNode ''Assignment''
        [ASTNode ''Identifier'' [ASTNode ''x'' []],
         ASTNode ''Identifier'' [ASTNode ''y'' []]]" 4]
  by (simp add: parseAssignment_x_y init_state_def)


lemma parseCondition_5_x:
  "parseCondition [Token NUMBER ''5'', Token EQ_OP ''=='', Token IDENTIFIER ''x''] 0
   = Inr (ASTNode ''=='' [ASTNode ''Number'' [ASTNode ''5'' []],
                          ASTNode ''Identifier'' [ASTNode ''x'' []]], 3)"
  by code_simp

text \<open>
  Claim C10. For a \<open>==\<close> node \<open>generateAssembly\<close> writes \<^verbatim>\<open>MOV A, <text>\<close> with the
  leaf text of the left operand and \<^verbatim>\<open>CPI <text>\<close> with the leaf text of the right
  operand, whatever the tags of the two operands are; for the node \<open>parseCondition\<close>
  builds, these are the texts of the first and the third token of the condition. The
  run on \<^verbatim>\<open>if (5 == x) { }\<close> lists \<^verbatim>\<open>MOV A, 5\<close> and then \<^verbatim>\<open>CPI x\<close>.
\<close>

theorem condition_codegen_ignores_operand_kind:
  "(\<forall>st. generateAssembly
            (ASTNode ''=='' [ASTNode lt [ASTNode l []], ASTNode rt [ASTNode r []]]) st
          = Inr (st\<lparr>cout := cout st @ [''  MOV A, '' @ l, ''  CPI '' @ r]\<rparr>))
   \<and> (parseCondition tokens pos = Inr (cond, pos') \<longrightarrow>
        (\<forall>st. generateAssembly cond st =
           Inr (st\<lparr>cout := cout st @ [''  MOV A, '' @ tok_value (tokens ! pos),
                                      ''  CPI '' @ tok_value (tokens ! (pos + 2))]\<rparr>)))
   \<and> listing ''if (5 == x) { }'' =
        Inr [''  MOV A, 5'', ''  CPI x'', ''  JNZ LABEL0'', ''LABEL0:'']"
proof (intro conjI impI)
  show "\<forall>st. generateAssembly
            (ASTNode ''=='' [ASTNode lt [ASTNode l []], ASTNode rt [ASTNode r []]]) st
          = Inr (st\<lparr>cout := cout st @ [''  MOV A, '' @ l, ''  CPI '' @ r]\<rparr>)"
    by (simp add: gen_condition)
next
  assume "parseCondition tokens pos = Inr (cond, pos')"
  from parseCondition_shape [OF this]
  show "\<forall>st. generateAssembly cond st =
           Inr (st\<lparr>cout := cout st @ [''  MOV A, '' @ tok_value (tokens ! pos),
                                      ''  CPI '' @ tok_value (tokens ! (pos + 2))]\<rparr>)"
    by (auto simp: gen_condition)
next
  show "listing ''if (5 == x) { }'' =
        Inr [''  MOV A, 5'', ''  CPI x'', ''  JNZ LABEL0'', ''LABEL0:'']"
    by code_simp
qed

theorem condition_codegen_ignores_operand_kind_witness:
  "generateAssembly
     (ASTNode ''=='' [ASTNode ''Number'' [ASTNode ''5'' []],
                      ASTNode ''Identifier'' [ASTNode ''x'' []]]) init_state
   = Inr (init_state\<lparr>cout := [''  MOV A, 5'', ''  CPI x'']\<rparr>)"
  using condition_codegen_ignores_operand_kind [of "''Number''" "''5''" "''Identifier''" "''x''"
      "[Token NUMBER ''5'', Token EQ_OP ''=='', Token IDENTIFIER ''x'']" 0
      "ASTNode ''=='' [ASTNode ''Number'' [ASTNode ''5'' []],
                       ASTNode ''Identifier'' [ASTNode ''x'' []]]" 3]
  by (simp add: parseCondition_5_x init_state_def)

end
